theory Spec2Isabelle
  imports Main "HOL-Library.Sublist" "HOL-Library.AList"
begin

section \<open>JavaScript strings\<close>

text \<open>
  Strings are lists of code units; the model covers the code units below 256. The
  white space of \<open>\s\<close> and of \<open>trim()\<close> in that range is TAB, LF, VT, FF, CR, SPACE and
  NBSP; the line terminators are LF and CR.
\<close>

definition is_space :: "char \<Rightarrow> bool" where
  "is_space c = (c \<in> set [CHR 0x09, CHR 0x0A, CHR 0x0B, CHR 0x0C, CHR 0x0D, CHR 0x20, CHR 0xA0])"

definition is_line_terminator :: "char \<Rightarrow> bool" where
  "is_line_terminator c = (c \<in> set [CHR 0x0A, CHR 0x0D])"

definition trimStart :: "string \<Rightarrow> string" where
  "trimStart s = dropWhile is_space s"

definition trimEnd :: "string \<Rightarrow> string" where
  "trimEnd s = rev (dropWhile is_space (rev s))"

definition trim :: "string \<Rightarrow> string" where
  "trim s = trimEnd (trimStart s)"

text \<open>\<open>s.includes(sub)\<close>\<close>

fun includesStr :: "string \<Rightarrow> string \<Rightarrow> bool" where
  "includesStr [] sub = (sub = [])"
| "includesStr (c # cs) sub = (prefix sub (c # cs) \<or> includesStr cs sub)"

text \<open>\<open>s.split('\n')\<close>: the pieces between the line feeds, always at least one piece.\<close>

fun splitNl :: "string \<Rightarrow> string list" where
  "splitNl [] = [[]]"
| "splitNl (c # cs) =
     (if c = CHR 0x0A then [] # splitNl cs
      else (case splitNl cs of [] \<Rightarrow> [[c]] | l # ls \<Rightarrow> (c # l) # ls))"

text \<open>\<open>lines.join('\n')\<close>\<close>

fun joinNl :: "string list \<Rightarrow> string" where
  "joinNl [] = []"
| "joinNl [l] = l"
| "joinNl (l # ls) = l @ CHR 0x0A # joinNl ls"

section \<open>Regular expressions\<close>

text \<open>
  The patterns of \<open>yaml-utils.ts\<close> are written as terms of \<open>regex\<close> and run by a
  backtracking matcher that lists the possible ends of a match in the order in which
  the backtracking of ECMAScript tries them: the head of the list is the match.
\<close>

datatype cset = CChar char | CRange char char | CSpace | CNonSpace

fun in_cset :: "cset \<Rightarrow> char \<Rightarrow> bool" where
  "in_cset (CChar d) c = (c = d)"
| "in_cset (CRange a b) c = ((of_char a :: nat) \<le> of_char c \<and> (of_char c :: nat) \<le> of_char b)"
| "in_cset CSpace c = is_space c"
| "in_cset CNonSpace c = (\<not> is_space c)"

datatype regex =
    Lit string
  | Cls "cset list"
  | NCls "cset list"
  | Dot
  | Seq regex regex
  | Alt regex regex
  | Star regex
  | LazyStar regex
  | Plus regex
  | Opt regex
  | Rep nat regex
  | Grp nat regex
  | Ahead regex
  | Bol
  | BolM
  | Eol

text \<open>
  A matcher state: the code unit before the current position (\<open>None\<close> at the start of the
  input), the rest of the input, and the captures made so far.
\<close>

type_synonym mstate = "char option \<times> string \<times> (nat \<rightharpoonup> string)"

definition rest_of :: "mstate \<Rightarrow> string" where
  "rest_of st = fst (snd st)"

fun step1 :: "(char \<Rightarrow> bool) \<Rightarrow> mstate \<Rightarrow> mstate list" where
  "step1 P (p, [], m) = []"
| "step1 P (p, c # cs, m) = (if P c then [(Some c, cs, m)] else [])"

fun lit :: "string \<Rightarrow> mstate \<Rightarrow> mstate list" where
  "lit [] st = [st]"
| "lit (c # cs) st = concat (map (lit cs) (step1 (\<lambda>d. d = c) st))"

text \<open>
  Only an iteration that consumes input may be repeated, so the length of the rest
  bounds the number of iterations.
\<close>

definition progress :: "mstate \<Rightarrow> mstate \<Rightarrow> bool" where
  "progress st st' = (length (rest_of st') < length (rest_of st))"

fun star :: "(mstate \<Rightarrow> mstate list) \<Rightarrow> nat \<Rightarrow> mstate \<Rightarrow> mstate list" where
  "star f 0 st = [st]"
| "star f (Suc n) st = concat (map (star f n) (filter (progress st) (f st))) @ [st]"

fun lazyStar :: "(mstate \<Rightarrow> mstate list) \<Rightarrow> nat \<Rightarrow> mstate \<Rightarrow> mstate list" where
  "lazyStar f 0 st = [st]"
| "lazyStar f (Suc n) st = st # concat (map (lazyStar f n) (filter (progress st) (f st)))"

fun rep :: "(mstate \<Rightarrow> mstate list) \<Rightarrow> nat \<Rightarrow> mstate \<Rightarrow> mstate list" where
  "rep f 0 st = [st]"
| "rep f (Suc n) st = concat (map (rep f n) (f st))"

definition capture :: "nat \<Rightarrow> mstate \<Rightarrow> mstate \<Rightarrow> mstate" where
  "capture n st st' =
     (case st' of (p', s', m') \<Rightarrow>
        (p', s', m'(n \<mapsto> take (length (rest_of st) - length s') (rest_of st))))"

primrec ms :: "regex \<Rightarrow> mstate \<Rightarrow> mstate list" where
  "ms (Lit l) = lit l"
| "ms (Cls cs) = step1 (\<lambda>c. list_ex (\<lambda>x. in_cset x c) cs)"
| "ms (NCls cs) = step1 (\<lambda>c. \<not> list_ex (\<lambda>x. in_cset x c) cs)"
| "ms Dot = step1 (\<lambda>c. \<not> is_line_terminator c)"
| "ms (Seq a b) = (\<lambda>st. concat (map (ms b) (ms a st)))"
| "ms (Alt a b) = (\<lambda>st. ms a st @ ms b st)"
| "ms (Star r) = (\<lambda>st. star (ms r) (length (rest_of st)) st)"
| "ms (LazyStar r) = (\<lambda>st. lazyStar (ms r) (length (rest_of st)) st)"
| "ms (Plus r) = (\<lambda>st. concat (map (\<lambda>st'. star (ms r) (length (rest_of st')) st') (ms r st)))"
| "ms (Opt r) = (\<lambda>st. filter (progress st) (ms r st) @ [st])"
| "ms (Rep n r) = rep (ms r) n"
| "ms (Grp n r) = (\<lambda>st. map (capture n st) (ms r st))"
| "ms (Ahead r) = (\<lambda>st. case ms r st of [] \<Rightarrow> [] | (p', s', m') # _ \<Rightarrow> [(fst st, rest_of st, m')])"
| "ms Bol = (\<lambda>st. if fst st = None then [st] else [])"
| "ms BolM = (\<lambda>st. case fst st of None \<Rightarrow> [st] | Some c \<Rightarrow> if is_line_terminator c then [st] else [])"
| "ms Eol = (\<lambda>st. if rest_of st = [] then [st] else [])"

text \<open>
  The result of \<open>RegExp.prototype.exec\<close> without the \<open>g\<close> flag: the index of the leftmost
  match, the matched text, the input after it, and the captures.
\<close>

record rmatch =
  index :: nat
  matched :: string
  after :: string
  groups :: "nat \<rightharpoonup> string"

fun search :: "regex \<Rightarrow> char option \<Rightarrow> nat \<Rightarrow> string \<Rightarrow> rmatch option" where
  "search r p i [] =
     (case ms r (p, [], Map.empty) of
        [] \<Rightarrow> None
      | (p', s', m) # _ \<Rightarrow> Some \<lparr>index = i, matched = [], after = s', groups = m\<rparr>)"
| "search r p i (c # cs) =
     (case ms r (p, c # cs, Map.empty) of
        [] \<Rightarrow> search r (Some c) (Suc i) cs
      | (p', s', m) # _ \<Rightarrow>
          Some \<lparr>index = i, matched = take (length (c # cs) - length s') (c # cs),
                after = s', groups = m\<rparr>)"

text \<open>\<open>s.match(r)\<close> for a pattern without the \<open>g\<close> flag.\<close>

definition re_match :: "regex \<Rightarrow> string \<Rightarrow> rmatch option" where
  "re_match r s = search r None 0 s"

text \<open>
  \<open>s.split(r)\<close> for a pattern without capturing groups: the pattern is tried at each
  position \<open>q\<close> from the start \<open>p\<close> of the current piece; an empty match at \<open>p\<close> is
  skipped, any other match closes the piece and the next piece starts at its end.
\<close>

function splitLoop :: "regex \<Rightarrow> char option \<Rightarrow> string \<Rightarrow> string \<Rightarrow> string list" where
  "splitLoop r p piece [] = [piece]"
| "splitLoop r p piece (c # cs) =
     (case ms r (p, c # cs, Map.empty) of
        [] \<Rightarrow> splitLoop r (Some c) (piece @ [c]) cs
      | st' # _ \<Rightarrow>
          if length (rest_of st') < length (c # cs) then piece # splitLoop r (fst st') [] (rest_of st')
          else if piece = [] then splitLoop r (Some c) [c] cs
          else piece # splitLoop r (Some c) [c] cs)"
  by pat_completeness auto

termination
  by (relation "measure (\<lambda>(r, p, piece, s). length s)") auto

definition re_split :: "regex \<Rightarrow> string \<Rightarrow> string list" where
  "re_split r s =
     (if s = [] then (if ms r (None, [], Map.empty) = [] then [[]] else [])
      else splitLoop r None [] s)"

text \<open>\<open>s.replace(r, t)\<close> for a pattern without the \<open>g\<close> flag: the leftmost match only.\<close>

definition re_replace :: "regex \<Rightarrow> string \<Rightarrow> string \<Rightarrow> string" where
  "re_replace r t s =
     (case re_match r s of None \<Rightarrow> s | Some m \<Rightarrow> take (index m) s @ t @ after m)"

section \<open>The data model\<close>

text \<open>
  \<open>Step\<close> of \<open>types/index.ts\<close>. An optional field is an \<open>option\<close>, \<open>None\<close> for
  \<open>undefined\<close>. \<open>options\<close> lists the own properties of the object in the order in which
  \<open>Object.entries\<close> enumerates them. The coordinates of \<open>position\<close> are never read or
  written by the functions below.
\<close>

record Step =
  id' :: string
  kind :: string
  shortDesc :: "string option"
  desc :: "string option"
  format :: "string option"
  sql :: "string option"
  path :: "string option"
  source :: "string option"
  options :: "(string \<times> string) list option"
  schema :: "string option"
  cache :: "bool option"
  show' :: "bool option"
  dependsOn :: "string list option"
  position :: "(int \<times> int) option"

text \<open>The object literal \<open>{ id: ..., kind: ... }\<close>: every other field is undefined.\<close>

definition newStep :: "string \<Rightarrow> string \<Rightarrow> Step" where
  "newStep i k =
     \<lparr>id' = i, kind = k, shortDesc = None, desc = None, format = None, sql = None,
      path = None, source = None, options = None, schema = None, cache = None,
      show' = None, dependsOn = None, position = None\<rparr>"

text \<open>A string used as a condition: undefined and the empty string are false.\<close>

fun truthy :: "string option \<Rightarrow> bool" where
  "truthy None = False"
| "truthy (Some s) = (s \<noteq> [])"

section \<open>stepsToYaml\<close>

text \<open>\<open>if (v) lines.push(`${label}${v}`)\<close>\<close>

definition optLine :: "string \<Rightarrow> string option \<Rightarrow> string list" where
  "optLine label v = (case v of None \<Rightarrow> [] | Some s \<Rightarrow> if s \<noteq> [] then [label @ s] else [])"

text \<open>A boolean in a template literal.\<close>

definition boolStr :: "bool \<Rightarrow> string" where
  "boolStr b = (if b then ''true'' else ''false'')"

definition boolLine :: "string \<Rightarrow> bool option \<Rightarrow> string list" where
  "boolLine label v = (case v of None \<Rightarrow> [] | Some b \<Rightarrow> [label @ boolStr b])"

definition sqlLines :: "string option \<Rightarrow> string list" where
  "sqlLines v =
     (case v of
        None \<Rightarrow> []
      | Some s \<Rightarrow>
          if s = [] then []
          else if CHR 0x0A \<in> set s
            then ''    sql: |'' # map (\<lambda>sqlLine. ''      '' @ sqlLine) (splitNl s)
            else [''    sql: '' @ s])"

definition optionsLines :: "(string \<times> string) list option \<Rightarrow> string list" where
  "optionsLines v =
     (case v of
        None \<Rightarrow> []
      | Some kvs \<Rightarrow>
          if length kvs > 0
            then ''    options:'' # map (\<lambda>(key, value). ''      '' @ key @ '': '' @ value) kvs
            else [])"

definition dependsOnLines :: "string list option \<Rightarrow> string list" where
  "dependsOnLines v =
     (case v of
        None \<Rightarrow> []
      | Some deps \<Rightarrow>
          if length deps > 0
            then ''    dependsOn:'' # map (\<lambda>dep. ''      - '' @ dep) deps
            else [])"

text \<open>The lines pushed by one iteration of the loop over the steps.\<close>

definition stepLines :: "Step \<Rightarrow> string list" where
  "stepLines step =
     [''  - id: '' @ id' step, ''    kind: '' @ kind step]
     @ optLine ''    shortDesc: '' (shortDesc step)
     @ optLine ''    source: '' (source step)
     @ optLine ''    format: '' (format step)
     @ optLine ''    path: '' (path step)
     @ sqlLines (sql step)
     @ boolLine ''    cache: '' (cache step)
     @ boolLine ''    show: '' (show' step)
     @ optLine ''    schema: '' (schema step)
     @ optionsLines (options step)
     @ dependsOnLines (dependsOn step)
     @ [[]]"

definition headerLines :: "string option \<Rightarrow> string option \<Rightarrow> string list" where
  "headerLines pipelineId pipelineDesc =
     [''id: '' @ (case pipelineId of None \<Rightarrow> ''my-pipeline''
                  | Some s \<Rightarrow> if s \<noteq> [] then s else ''my-pipeline'')]
     @ optLine ''desc: '' pipelineDesc
     @ [[], ''steps:'']"

definition stepsToYaml :: "Step list \<Rightarrow> string option \<Rightarrow> string option \<Rightarrow> string" where
  "stepsToYaml steps pipelineId pipelineDesc =
     trim (joinNl (headerLines pipelineId pipelineDesc @ concat (map stepLines steps)))"

section \<open>The patterns\<close>

fun seqs :: "regex list \<Rightarrow> regex" where
  "seqs [] = Lit []"
| "seqs [r] = r"
| "seqs (r # rs) = Seq r (seqs rs)"

abbreviation nl :: char where
  "nl \<equiv> CHR 0x0A"

abbreviation ws :: regex where
  "ws \<equiv> Cls [CSpace]"

abbreviation letter :: regex where
  "letter \<equiv> Cls [CRange CHR ''a'' CHR ''z'', CRange CHR ''A'' CHR ''Z'']"

abbreviation anychar :: regex where
  "anychar \<equiv> Cls [CSpace, CNonSpace]"

abbreviation notNl :: regex where
  "notNl \<equiv> NCls [CChar nl]"

abbreviation notSpaceNl :: regex where
  "notSpaceNl \<equiv> NCls [CSpace, CChar nl]"

text \<open>\<open>/steps:\s*\n([\s\S]*?)(?=\n[a-zA-Z]|$)/\<close>\<close>

definition re_steps :: regex where
  "re_steps =
     seqs [Lit ''steps:'', Star ws, Lit [nl], Grp 1 (LazyStar anychar),
           Ahead (Alt (Seq (Lit [nl]) letter) Eol)]"

text \<open>\<open>/\n\s*-\s+(?=id:)/\<close>\<close>

definition re_stepSep :: regex where
  "re_stepSep = seqs [Lit [nl], Star ws, Lit ''-'', Plus ws, Ahead (Lit ''id:'')]"

text \<open>\<open>/key:\s*([^\s\n]+)/\<close> and \<open>/key:\s*([^\n]+)/\<close> and \<open>/key:\s*(true|false)/\<close>\<close>

definition re_token :: "string \<Rightarrow> regex" where
  "re_token key = seqs [Lit (key @ '':''), Star ws, Grp 1 (Plus notSpaceNl)]"

definition re_line :: "string \<Rightarrow> regex" where
  "re_line key = seqs [Lit (key @ '':''), Star ws, Grp 1 (Plus notNl)]"

definition re_bool :: "string \<Rightarrow> regex" where
  "re_bool key = seqs [Lit (key @ '':''), Star ws, Grp 1 (Alt (Lit ''true'') (Lit ''false''))]"

text \<open>\<open>/sql:\s*\|\s*\n([\s\S]*?)(?=\n\s*[a-zA-Z]|$)/\<close>\<close>

definition re_sqlPipe :: regex where
  "re_sqlPipe =
     seqs [Lit ''sql:'', Star ws, Lit ''|'', Star ws, Lit [nl], Grp 1 (LazyStar anychar),
           Ahead (Alt (seqs [Lit [nl], Star ws, letter]) Eol)]"

text \<open>\<open>/^\s{6}/\<close>\<close>

definition re_indent :: regex where
  "re_indent = Seq Bol (Rep 6 ws)"

text \<open>\<open>/options:\s*\n((?:\s+[a-zA-Z_]+:\s*[^\n]+\n?)+)/\<close>\<close>

definition re_options :: regex where
  "re_options =
     seqs [Lit ''options:'', Star ws, Lit [nl],
           Grp 1 (Plus (seqs [Plus ws,
                              Plus (Cls [CRange CHR ''a'' CHR ''z'', CRange CHR ''A'' CHR ''Z'', CChar CHR ''_'']),
                              Lit '':'', Star ws, Plus notNl, Opt (Lit [nl])]))]"

text \<open>\<open>/\s*([a-zA-Z_]+):\s*(.+)/\<close>\<close>

definition re_optionLine :: regex where
  "re_optionLine =
     seqs [Star ws,
           Grp 1 (Plus (Cls [CRange CHR ''a'' CHR ''z'', CRange CHR ''A'' CHR ''Z'', CChar CHR ''_''])),
           Lit '':'', Star ws, Grp 2 (Plus Dot)]"

text \<open>\<open>/dependsOn:\s*\n((?:\s+-\s*[^\n]+\n?)+)/\<close>\<close>

definition re_dependsOn :: regex where
  "re_dependsOn =
     seqs [Lit ''dependsOn:'', Star ws, Lit [nl],
           Grp 1 (Plus (seqs [Plus ws, Lit ''-'', Star ws, Plus notNl, Opt (Lit [nl])]))]"

text \<open>\<open>/\s*-\s*(.+)/\<close>\<close>

definition re_depLine :: regex where
  "re_depLine = seqs [Star ws, Lit ''-'', Star ws, Grp 1 (Plus Dot)]"

text \<open>\<open>/^id:\s*([^\n]+)/m\<close> and \<open>/^desc:\s*([^\n]+)/m\<close>\<close>

definition re_top :: "string \<Rightarrow> regex" where
  "re_top key = seqs [BolM, Lit (key @ '':''), Star ws, Grp 1 (Plus notNl)]"

text \<open>\<open>/^id:\s*\S+/m\<close>\<close>

definition re_hasId :: regex where
  "re_hasId = seqs [BolM, Lit ''id:'', Star ws, Plus (Cls [CNonSpace])]"

section \<open>parseYamlSteps\<close>

text \<open>
  A capture that took no part in a match reads as undefined (\<open>None\<close>). Calling a method
  on undefined throws a TypeError, and so the parser has the result type
  \<open>js_error + 'a\<close>. An undefined \<open>id\<close> or \<open>kind\<close> has no place in a \<open>Step\<close> and is counted
  as the same error.
\<close>

datatype js_error = TypeError

definition bindE :: "js_error + 'a \<Rightarrow> ('a \<Rightarrow> js_error + 'b) \<Rightarrow> js_error + 'b" where
  "bindE x f = (case x of Inl e \<Rightarrow> Inl e | Inr v \<Rightarrow> f v)"

text \<open>\<open>m[n]\<close> where a string is needed, and \<open>m[n].trim()\<close>\<close>

definition strGroup :: "rmatch \<Rightarrow> nat \<Rightarrow> js_error + string" where
  "strGroup m n = (case groups m n of None \<Rightarrow> Inl TypeError | Some g \<Rightarrow> Inr g)"

definition trimGroup :: "rmatch \<Rightarrow> nat \<Rightarrow> js_error + string" where
  "trimGroup m n = (case groups m n of None \<Rightarrow> Inl TypeError | Some g \<Rightarrow> Inr (trim g))"

text \<open>\<open>const m = block.match(/key:\s*([^\n]+)/); if (m) step.key = m[1].trim();\<close>\<close>

definition lineField :: "string \<Rightarrow> string \<Rightarrow> js_error + string option" where
  "lineField key block =
     (case re_match (re_line key) block of
        None \<Rightarrow> Inr None
      | Some m \<Rightarrow> bindE (trimGroup m 1) (\<lambda>v. Inr (Some v)))"

text \<open>\<open>const m = block.match(/key:\s*([^\s\n]+)/); if (m) step.key = m[1];\<close>\<close>

definition tokenField :: "string \<Rightarrow> string \<Rightarrow> string option" where
  "tokenField key block =
     (case re_match (re_token key) block of None \<Rightarrow> None | Some m \<Rightarrow> groups m 1)"

text \<open>\<open>const m = block.match(/key:\s*(true|false)/); if (m) step.key = m[1] === 'true';\<close>\<close>

definition boolField :: "string \<Rightarrow> string \<Rightarrow> bool option" where
  "boolField key block =
     (case re_match (re_bool key) block of
        None \<Rightarrow> None
      | Some m \<Rightarrow> Some (groups m 1 = Some ''true''))"

text \<open>The \<open>sql\<close> attribute: the block scalar first, the inline value otherwise.\<close>

definition sqlField :: "string \<Rightarrow> js_error + string option" where
  "sqlField block =
     (case re_match re_sqlPipe block of
        Some sqlPipeMatch \<Rightarrow>
          bindE (strGroup sqlPipeMatch 1)
            (\<lambda>g. Inr (Some (trim (joinNl (map (re_replace re_indent []) (splitNl g))))))
      | None \<Rightarrow> lineField ''sql'' block)"

text \<open>
  \<open>obj[key] = value\<close> on an object created by \<open>{}\<close>: a new key is appended, an old key
  keeps its place, and \<open>__proto__\<close> is the accessor of \<open>Object.prototype\<close>, which ignores
  a string.
\<close>

definition objSet :: "string \<Rightarrow> string \<Rightarrow> (string \<times> string) list \<Rightarrow> (string \<times> string) list" where
  "objSet key v obj = (if key = ''__proto__'' then obj else AList.update key v obj)"

text \<open>A property key: undefined is turned into the string \<open>undefined\<close>.\<close>

definition propertyKey :: "string option \<Rightarrow> string" where
  "propertyKey k = (case k of None \<Rightarrow> ''undefined'' | Some s \<Rightarrow> s)"

fun optionLoop :: "string list \<Rightarrow> (string \<times> string) list \<Rightarrow> js_error + (string \<times> string) list" where
  "optionLoop [] obj = Inr obj"
| "optionLoop (line # optionLines) obj =
     (case re_match re_optionLine line of
        None \<Rightarrow> optionLoop optionLines obj
      | Some optMatch \<Rightarrow>
          bindE (trimGroup optMatch 2)
            (\<lambda>v. optionLoop optionLines (objSet (propertyKey (groups optMatch 1)) v obj)))"

definition optionsField :: "string \<Rightarrow> js_error + (string \<times> string) list option" where
  "optionsField block =
     (case re_match re_options block of
        None \<Rightarrow> Inr None
      | Some optionsMatch \<Rightarrow>
          bindE (trimGroup optionsMatch 1)
            (\<lambda>g. bindE (optionLoop (splitNl g) []) (\<lambda>obj. Inr (Some obj))))"

fun depLoop :: "string list \<Rightarrow> string list \<Rightarrow> js_error + string list" where
  "depLoop [] deps = Inr deps"
| "depLoop (line # depLines) deps =
     (case re_match re_depLine line of
        None \<Rightarrow> depLoop depLines deps
      | Some depMatch \<Rightarrow>
          bindE (trimGroup depMatch 1) (\<lambda>v. depLoop depLines (deps @ [v])))"

definition dependsOnField :: "string \<Rightarrow> js_error + string list option" where
  "dependsOnField block =
     (case re_match re_dependsOn block of
        None \<Rightarrow> Inr None
      | Some dependsOnMatch \<Rightarrow>
          bindE (trimGroup dependsOnMatch 1)
            (\<lambda>g. bindE (depLoop (splitNl g) []) (\<lambda>deps. Inr (Some deps))))"

text \<open>
  \<open>parseStepBlock\<close>: \<open>Inr None\<close> is the \<open>null\<close> of a block without \<open>id\<close> or \<open>kind\<close>. A field
  whose pattern does not match stays undefined.
\<close>

definition parseStepBlock :: "string \<Rightarrow> js_error + Step option" where
  "parseStepBlock block =
     (case re_match (re_token ''id'') block of
        None \<Rightarrow> Inr None
      | Some idMatch \<Rightarrow>
     (case re_match (re_token ''kind'') block of
        None \<Rightarrow> Inr None
      | Some kindMatch \<Rightarrow>
          bindE (strGroup idMatch 1) (\<lambda>i.
          bindE (strGroup kindMatch 1) (\<lambda>k.
          bindE (lineField ''shortDesc'' block) (\<lambda>shortDescV.
          bindE (lineField ''desc'' block) (\<lambda>descV.
          bindE (lineField ''path'' block) (\<lambda>pathV.
          bindE (lineField ''schema'' block) (\<lambda>schemaV.
          bindE (sqlField block) (\<lambda>sqlV.
          bindE (optionsField block) (\<lambda>optionsV.
          bindE (dependsOnField block) (\<lambda>dependsOnV.
            Inr (Some ((newStep i k)
              \<lparr>shortDesc := shortDescV, desc := descV,
               format := tokenField ''format'' block,
               source := tokenField ''source'' block,
               path := pathV, schema := schemaV,
               cache := boolField ''cache'' block,
               show' := boolField ''show'' block,
               sql := sqlV, options := optionsV, dependsOn := dependsOnV\<rparr>)))))))))))))"

fun parseBlocks :: "string list \<Rightarrow> js_error + Step list" where
  "parseBlocks [] = Inr []"
| "parseBlocks (block # stepBlocks) =
     bindE (parseStepBlock block) (\<lambda>step.
     bindE (parseBlocks stepBlocks) (\<lambda>steps.
       Inr (case step of None \<Rightarrow> steps | Some s \<Rightarrow> s # steps)))"

definition parseYamlSteps :: "string \<Rightarrow> js_error + Step list" where
  "parseYamlSteps yaml =
     (case re_match re_steps yaml of
        None \<Rightarrow> Inr []
      | Some stepsMatch \<Rightarrow>
          bindE (strGroup stepsMatch 1)
            (\<lambda>stepsContent. parseBlocks (filter (\<lambda>b. b \<noteq> []) (re_split re_stepSep stepsContent))))"

section \<open>extractPipelineMetadata and mergeStepsIntoYaml\<close>

record Metadata =
  meta_id :: "string option"
  meta_desc :: "string option"

text \<open>\<open>m?.[1]?.trim()\<close>: undefined when there is no match or no capture.\<close>

definition topField :: "string \<Rightarrow> string \<Rightarrow> string option" where
  "topField key yaml =
     (case re_match (re_top key) yaml of
        None \<Rightarrow> None
      | Some m \<Rightarrow> map_option trim (groups m 1))"

definition extractPipelineMetadata :: "string \<Rightarrow> Metadata" where
  "extractPipelineMetadata yaml =
     \<lparr>meta_id = topField ''id'' yaml, meta_desc = topField ''desc'' yaml\<rparr>"


section \<open>validateYaml\<close>

record Validation =
  valid :: bool
  errors :: "string list"

definition validKinds :: "string list" where
  "validKinds =
     [''input'', ''input-stream'', ''sql'', ''variable'', ''script'',
      ''custom'', ''customInput'', ''avro-serde'', ''udf'', ''output'', ''output-stream'',
      ''parse-json'']"

definition quoted :: "string \<Rightarrow> string" where
  "quoted s = [CHR 0x27] @ s @ [CHR 0x27]"

definition missingIdMsg :: string where
  "missingIdMsg = ''Pipeline must have an '' @ quoted ''id'' @ '' field''"

definition missingStepsMsg :: string where
  "missingStepsMsg = ''Pipeline must have a '' @ quoted ''steps'' @ '' section''"

definition noStepsMsg :: string where
  "noStepsMsg = ''Pipeline must have at least one step''"

definition duplicateMsg :: "string \<Rightarrow> string" where
  "duplicateMsg i = ''Duplicate step ID: '' @ quoted i"

definition invalidKindMsg :: "string \<Rightarrow> string \<Rightarrow> string" where
  "invalidKindMsg k i = ''Invalid step kind '' @ quoted k @ '' in step '' @ quoted i"

definition formatMsg :: "string \<Rightarrow> string \<Rightarrow> string" where
  "formatMsg i k = ''Step '' @ quoted i @ '' of kind '' @ quoted k @ '' should specify a format''"

definition unknownSourceMsg :: "string \<Rightarrow> string \<Rightarrow> string" where
  "unknownSourceMsg i src = ''Step '' @ quoted i @ '' references unknown source '' @ quoted src"

text \<open>
  The checks of one iteration of the loop over the steps, in the order of the source:
  \<open>stepIds\<close> holds the ids of the steps before this one.
\<close>

definition duplicateCheck :: "string set \<Rightarrow> Step \<Rightarrow> string list" where
  "duplicateCheck stepIds step =
     (if id' step \<in> stepIds then [duplicateMsg (id' step)] else [])"

definition kindCheck :: "Step \<Rightarrow> string list" where
  "kindCheck step =
     (if kind step \<notin> set validKinds then [invalidKindMsg (kind step) (id' step)] else [])"

definition formatCheck :: "Step \<Rightarrow> string list" where
  "formatCheck step =
     (if (kind step = ''input'' \<or> kind step = ''output'') \<and> \<not> truthy (format step)
      then [formatMsg (id' step) (kind step)] else [])"

text \<open>
  \<open>step.source && !stepIds.has(step.source) &&
   step.source !== steps.find(s => s.id === step.source)?.id\<close>, then
  \<open>!steps.some(s => s.id === step.source)\<close>; \<open>stepIds\<close> already holds the id of this step.
\<close>

definition sourceCheck :: "Step list \<Rightarrow> string set \<Rightarrow> Step \<Rightarrow> string list" where
  "sourceCheck steps stepIds step =
     (case source step of
        None \<Rightarrow> []
      | Some src \<Rightarrow>
          if src \<noteq> [] \<and> src \<notin> stepIds
             \<and> Some src \<noteq> map_option id' (find (\<lambda>s. id' s = src) steps)
          then (if list_ex (\<lambda>s. id' s = src) steps then [] else [unknownSourceMsg (id' step) src])
          else [])"

fun stepLoop :: "Step list \<Rightarrow> string set \<Rightarrow> Step list \<Rightarrow> string list" where
  "stepLoop steps stepIds [] = []"
| "stepLoop steps stepIds (step # todo) =
     duplicateCheck stepIds step
     @ kindCheck step
     @ formatCheck step
     @ sourceCheck steps (insert (id' step) stepIds) step
     @ stepLoop steps (insert (id' step) stepIds) todo"

definition validateYaml :: "string \<Rightarrow> js_error + Validation" where
  "validateYaml yaml =
     bindE (parseYamlSteps yaml) (\<lambda>steps.
       let errs =
             (if re_match re_hasId yaml = None then [missingIdMsg] else [])
             @ (if \<not> includesStr yaml ''steps:'' then [missingStepsMsg] else [])
             @ (if length steps = 0 then [noStepsMsg] else [])
             @ stepLoop steps {} steps
       in Inr \<lparr>valid = (length errs = 0), errors = errs\<rparr>)"

section \<open>Captures of a pattern\<close>

text \<open>
  \<open>binds n r\<close>: every match of \<open>r\<close> goes through a group numbered \<open>n\<close>, so that the
  capture \<open>n\<close> of a match is defined.
\<close>

fun binds :: "nat \<Rightarrow> regex \<Rightarrow> bool" where
  "binds n (Grp k r) = (k = n \<or> binds n r)"
| "binds n (Seq a b) = (binds n a \<or> binds n b)"
| "binds n (Alt a b) = (binds n a \<and> binds n b)"
| "binds n (Plus r) = binds n r"
| "binds n (Ahead r) = binds n r"
| "binds n (Rep k r) = (0 < k \<and> binds n r)"
| "binds n r = False"

definition caps_of :: "mstate \<Rightarrow> nat \<rightharpoonup> string" where
  "caps_of st = snd (snd st)"

definition keeps :: "nat \<Rightarrow> (mstate \<Rightarrow> mstate list) \<Rightarrow> bool" where
  "keeps n f = (\<forall>st st'. st' \<in> set (f st) \<longrightarrow> caps_of st n \<noteq> None \<longrightarrow> caps_of st' n \<noteq> None)"

definition makes :: "nat \<Rightarrow> (mstate \<Rightarrow> mstate list) \<Rightarrow> bool" where
  "makes n f = (\<forall>st st'. st' \<in> set (f st) \<longrightarrow> caps_of st' n \<noteq> None)"

section \<open>Reading the attribute keys off the serialised lines\<close>

text \<open>
  The key of an attribute line of a step: the first line of an entry starts with the
  sequence marker, the other attribute lines with four spaces. A line indented further
  (a line of a block scalar, an option, a dependency) and the blank line carry no key.
\<close>

definition lineKey :: "string \<Rightarrow> string option" where
  "lineKey line =
     (if prefix ''  - '' line \<or> (prefix ''    '' line \<and> \<not> prefix ''     '' line)
      then Some (takeWhile (\<lambda>c. c \<noteq> CHR '':'') (drop 4 line))
      else None)"

text \<open>A step with an attribute that is defined and empty.\<close>

definition emptyShortDescStep :: Step where
  "emptyShortDescStep = (newStep ''a'' ''sql'')\<lparr>shortDesc := Some []\<rparr>"

text \<open>A step with every serialised attribute set.\<close>

definition fullStep :: Step where
  "fullStep =
     \<lparr>id' = ''out'', kind = ''output'', shortDesc = Some ''write'', desc = None,
      format = Some ''parquet'', sql = Some ''SELECT 1'', path = Some ''/out'',
      source = Some ''in'', options = Some [(''mode'', ''overwrite'')],
      schema = Some ''a INT'', cache = Some False, show' = Some True,
      dependsOn = Some [''in''], position = None\<rparr>"

section \<open>Texts and steps of the claims\<close>


text \<open>The captures of the leftmost match of a pattern, when there is one.\<close>

definition found :: "regex \<Rightarrow> string \<Rightarrow> (nat \<rightharpoonup> string) option" where
  "found r s = map_option groups (re_match r s)"

text \<open>The first of the ways in which a matcher goes on from a state.\<close>

definition heads :: "(mstate \<Rightarrow> mstate list) \<Rightarrow> mstate \<Rightarrow> mstate \<Rightarrow> bool" where
  "heads f st y = (\<exists>xs. f st = y # xs)"

text \<open>
  A matcher reads a piece of text as a line when it goes over it to the end of the input,
  and over it and the line feed that follows.
\<close>

definition reads :: "(mstate \<Rightarrow> mstate list) \<Rightarrow> string \<Rightarrow> bool" where
  "reads f l = (l \<noteq> []
     \<and> (\<forall>p m. heads f (p, l, m) (Some (last l), [], m))
     \<and> (\<forall>p m T. heads f (p, l @ nl # T, m) (Some nl, T, m)))"






text \<open>The class \<open>[a-zA-Z]\<close>.\<close>

definition isLetter :: "char \<Rightarrow> bool" where
  "isLetter c = list_ex (\<lambda>x. in_cset x c) [CRange CHR ''a'' CHR ''z'', CRange CHR ''A'' CHR ''Z'']"



text \<open>What a token pattern captures holds no white space.\<close>

definition tokenish :: "string \<Rightarrow> bool" where
  "tokenish v = (v \<noteq> [] \<and> list_all (\<lambda>c. \<not> is_space c) v)"



text \<open>A step with a source that no step has as its id, after a step that refers forward.\<close>

definition danglingYaml :: string where
  "danglingYaml =
     ''id: p\<newline>steps:\<newline>  - id: A\<newline>    kind: sql\<newline>    source: C\<newline>  - id: C\<newline>    kind: sql\<newline>    source: X''"





text \<open>An attribute line of a step entry: its indentation, its key and its value, when the
  attribute is set.\<close>

type_synonym entry = "string \<times> string \<times> string option"

text \<open>The line \<open>key: value\<close> of an entry; no line for an attribute that is not set.\<close>

definition entryLine :: "entry \<Rightarrow> string list" where
  "entryLine e = (case e of (ind, k, v) \<Rightarrow> (case v of None \<Rightarrow> [] | Some x \<Rightarrow> [ind @ k @ '': '' @ x]))"

text \<open>The lines of a list of entries.\<close>

definition entryLines :: "entry list \<Rightarrow> string list" where
  "entryLines es = concat (map entryLine es)"










text \<open>The matches of the separator pattern at the start of a text.\<close>

definition sepAt :: "string \<Rightarrow> mstate list" where
  "sepAt x = ms re_stepSep (None, x, Map.empty)"













section \<open>Example documents\<close>

text \<open>The step of the multi-line SQL example and the text \<open>stepsToYaml\<close> gives for it.\<close>

definition sqlExampleStep :: Step where
  "sqlExampleStep =
     (newStep ''query'' ''sql'')\<lparr>sql := Some ''SELECT *\<newline>FROM t\<newline>WHERE x = 1''\<rparr>"

definition sqlExampleYaml :: string where
  "sqlExampleYaml =
     ''id: my-pipeline\<newline>\<newline>steps:\<newline>  - id: query\<newline>    kind: sql\<newline>    sql: |\<newline>      SELECT *\<newline>      FROM t\<newline>      WHERE x = 1''"

text \<open>The document of the test \<open>should detect duplicate step IDs\<close>.\<close>

definition duplicateYaml :: string where
  "duplicateYaml =
     ''\<newline>id: test\<newline>steps:\<newline>  - id: duplicate\<newline>    kind: input\<newline>  - id: duplicate\<newline>    kind: output\<newline>''"

text \<open>A step that names a later step as its source.\<close>

definition forwardYaml :: string where
  "forwardYaml =
     ''id: p\<newline>steps:\<newline>  - id: A\<newline>    kind: sql\<newline>    source: B\<newline>  - id: B\<newline>    kind: sql''"




text \<open>The existing text and the new step of the test of \<open>mergeStepsIntoYaml\<close>.\<close>

definition mergeExistingYaml :: string where
  "mergeExistingYaml =
     ''\<newline>id: original-id\<newline>desc: Original description\<newline>steps:\<newline>  - id: old_step\<newline>    kind: input\<newline>''"



section \<open>A capture, once made, stays\<close>

lemma keepsI: "(\<And>st st'. st' \<in> set (f st) \<Longrightarrow> caps_of st n \<noteq> None \<Longrightarrow> caps_of st' n \<noteq> None) \<Longrightarrow> keeps n f"
  unfolding keeps_def by blast

lemma keepsD: "keeps n f \<Longrightarrow> st' \<in> set (f st) \<Longrightarrow> caps_of st n \<noteq> None \<Longrightarrow> caps_of st' n \<noteq> None"
  unfolding keeps_def by blast

lemma keeps_unit: "keeps n (\<lambda>st. [st])"
  by (rule keepsI) simp

lemma keeps_bind: assumes "keeps n f" "keeps n g" shows "keeps n (\<lambda>st. concat (map g (f st)))"
proof (rule keepsI)
  fix st st' assume a: "st' \<in> set (concat (map g (f st)))" and b: "caps_of st n \<noteq> None"
  from a obtain mid where m: "mid \<in> set (f st)" "st' \<in> set (g mid)" by auto
  from keepsD[OF assms(1) m(1) b] keepsD[OF assms(2) m(2)] show "caps_of st' n \<noteq> None" by simp
qed

lemma keeps_append: assumes "keeps n f" "keeps n g" shows "keeps n (\<lambda>st. f st @ g st)"
proof (rule keepsI)
  fix st st' assume a: "st' \<in> set (f st @ g st)" and b: "caps_of st n \<noteq> None"
  from a have "st' \<in> set (f st) \<or> st' \<in> set (g st)" by simp
  then show "caps_of st' n \<noteq> None" using keepsD[OF assms(1) _ b] keepsD[OF assms(2) _ b] by blast
qed

lemma keeps_filter: assumes "keeps n f" shows "keeps n (\<lambda>st. filter (P st) (f st))"
proof (rule keepsI)
  fix st st' assume a: "st' \<in> set (filter (P st) (f st))" and b: "caps_of st n \<noteq> None"
  from a have "st' \<in> set (f st)" by simp
  then show "caps_of st' n \<noteq> None" using keepsD[OF assms _ b] by blast
qed

lemma keeps_step1: "keeps n (step1 P)"
proof (rule keepsI)
  fix st st' :: mstate
  assume a: "st' \<in> set (step1 P st)" and b: "caps_of st n \<noteq> None"
  obtain p s m where st: "st = (p, s, m)" by (cases st) auto
  show "caps_of st' n \<noteq> None"
    using a b unfolding st by (cases s) (auto simp: caps_of_def split: if_splits)
qed

lemma lit_Cons_fun: "lit (c # l) = (\<lambda>st. concat (map (lit l) (step1 (\<lambda>d. d = c) st)))"
  by (rule ext) simp

lemma keeps_lit: "keeps n (lit l)"
proof (induction l)
  case Nil
  have "lit [] = (\<lambda>st. [st])" by (rule ext) simp
  then show ?case by (simp add: keeps_unit)
next
  case (Cons c l)
  show ?case unfolding lit_Cons_fun by (rule keeps_bind[OF keeps_step1 Cons])
qed

lemma star_Suc_fun:
  "star f (Suc k) = (\<lambda>st. concat (map (star f k) (filter (progress st) (f st))) @ [st])"
  by (rule ext) simp

lemma keeps_star: assumes "keeps n f" shows "keeps n (star f k)"
proof (induction k)
  case 0
  have "star f 0 = (\<lambda>st. [st])" by (rule ext) simp
  then show ?case by (simp add: keeps_unit)
next
  case (Suc k)
  show ?case unfolding star_Suc_fun
    by (rule keeps_append[OF keeps_bind[OF keeps_filter[OF assms] Suc] keeps_unit])
qed

lemma lazyStar_Suc_fun:
  "lazyStar f (Suc k) = (\<lambda>st. [st] @ concat (map (lazyStar f k) (filter (progress st) (f st))))"
  by (rule ext) simp

lemma keeps_lazyStar: assumes "keeps n f" shows "keeps n (lazyStar f k)"
proof (induction k)
  case 0
  have "lazyStar f 0 = (\<lambda>st. [st])" by (rule ext) simp
  then show ?case by (simp add: keeps_unit)
next
  case (Suc k)
  show ?case unfolding lazyStar_Suc_fun
    by (rule keeps_append[OF keeps_unit keeps_bind[OF keeps_filter[OF assms] Suc]])
qed

lemma rep_Suc_fun: "rep f (Suc k) = (\<lambda>st. concat (map (rep f k) (f st)))"
  by (rule ext) simp

lemma keeps_rep: assumes "keeps n f" shows "keeps n (rep f k)"
proof (induction k)
  case 0
  have "rep f 0 = (\<lambda>st. [st])" by (rule ext) simp
  then show ?case by (simp add: keeps_unit)
next
  case (Suc k)
  show ?case unfolding rep_Suc_fun by (rule keeps_bind[OF assms Suc])
qed

lemma keeps_star_len: assumes "keeps n f" shows "keeps n (\<lambda>st. star f (length (rest_of st)) st)"
  by (rule keepsI) (erule keepsD[OF keeps_star[OF assms]])

lemma keeps_lazyStar_len: assumes "keeps n f" shows "keeps n (\<lambda>st. lazyStar f (length (rest_of st)) st)"
  by (rule keepsI) (erule keepsD[OF keeps_lazyStar[OF assms]])

lemma keeps_capture: assumes "keeps n f" shows "keeps n (\<lambda>st. map (capture k st) (f st))"
proof (rule keepsI)
  fix st st' assume a: "st' \<in> set (map (capture k st) (f st))" and b: "caps_of st n \<noteq> None"
  from a obtain mid where m: "mid \<in> set (f st)" "st' = capture k st mid" by auto
  have "caps_of mid n \<noteq> None" by (rule keepsD[OF assms m(1) b])
  then show "caps_of st' n \<noteq> None"
    unfolding m(2) by (cases mid) (simp add: capture_def caps_of_def)
qed

lemma keeps_ahead: assumes "keeps n f"
  shows "keeps n (\<lambda>st. case f st of [] \<Rightarrow> [] | (p', s', m') # _ \<Rightarrow> [(fst st, rest_of st, m')])"
proof (rule keepsI)
  fix st st'
  assume a: "st' \<in> set (case f st of [] \<Rightarrow> [] | (p', s', m') # _ \<Rightarrow> [(fst st, rest_of st, m')])"
    and b: "caps_of st n \<noteq> None"
  show "caps_of st' n \<noteq> None"
  proof (cases "f st")
    case Nil
    with a show ?thesis by simp
  next
    case (Cons x xs)
    obtain p' s' m' where x: "x = (p', s', m')" by (cases x) auto
    have "x \<in> set (f st)" using Cons by simp
    from keepsD[OF assms this b] have "m' n \<noteq> None" by (simp add: x caps_of_def)
    with a Cons x show ?thesis by (simp add: caps_of_def)
  qed
qed

lemma keeps_ms: "keeps n (ms r)"
proof (induction r)
  case (Lit l)
  show ?case by (simp add: keeps_lit)
next
  case (Cls cs)
  show ?case by (simp add: keeps_step1)
next
  case (NCls cs)
  show ?case by (simp add: keeps_step1)
next
  case Dot
  show ?case by (simp add: keeps_step1)
next
  case (Seq a b)
  then show ?case by (simp add: keeps_bind)
next
  case (Alt a b)
  then show ?case by (simp add: keeps_append)
next
  case (Star r)
  then show ?case by (simp add: keeps_star_len)
next
  case (LazyStar r)
  then show ?case by (simp add: keeps_lazyStar_len)
next
  case (Plus r)
  then show ?case by (simp add: keeps_bind keeps_star_len)
next
  case (Opt r)
  then show ?case by (simp add: keeps_append keeps_filter keeps_unit)
next
  case (Rep k r)
  then show ?case by (simp add: keeps_rep)
next
  case (Grp k r)
  then show ?case by (simp add: keeps_capture)
next
  case (Ahead r)
  then show ?case by (simp add: keeps_ahead)
next
  case Bol
  show ?case by (rule keepsI) (simp split: if_splits)
next
  case BolM
  show ?case by (rule keepsI) (simp split: option.splits if_splits)
next
  case Eol
  show ?case by (rule keepsI) (simp split: if_splits)
qed

section \<open>The captures of a match are defined\<close>

lemma makesI: "(\<And>st st'. st' \<in> set (f st) \<Longrightarrow> caps_of st' n \<noteq> None) \<Longrightarrow> makes n f"
  unfolding makes_def by blast

lemma makesD: "makes n f \<Longrightarrow> st' \<in> set (f st) \<Longrightarrow> caps_of st' n \<noteq> None"
  unfolding makes_def by blast

lemma makes_bind1: assumes "makes n f" "keeps n g" shows "makes n (\<lambda>st. concat (map g (f st)))"
proof (rule makesI)
  fix st st' assume a: "st' \<in> set (concat (map g (f st)))"
  from a obtain mid where m: "mid \<in> set (f st)" "st' \<in> set (g mid)" by auto
  from keepsD[OF assms(2) m(2) makesD[OF assms(1) m(1)]] show "caps_of st' n \<noteq> None" .
qed

lemma makes_bind2: assumes "makes n g" shows "makes n (\<lambda>st. concat (map g (f st)))"
proof (rule makesI)
  fix st st' assume a: "st' \<in> set (concat (map g (f st)))"
  from a obtain mid where m: "mid \<in> set (f st)" "st' \<in> set (g mid)" by auto
  from makesD[OF assms m(2)] show "caps_of st' n \<noteq> None" .
qed

lemma makes_append: assumes "makes n f" "makes n g" shows "makes n (\<lambda>st. f st @ g st)"
proof (rule makesI)
  fix st st' assume a: "st' \<in> set (f st @ g st)"
  then have "st' \<in> set (f st) \<or> st' \<in> set (g st)" by simp
  then show "caps_of st' n \<noteq> None" using makesD[OF assms(1)] makesD[OF assms(2)] by blast
qed

lemma makes_capture_same: "makes n (\<lambda>st. map (capture n st) (f st))"
proof (rule makesI)
  fix st st' assume a: "st' \<in> set (map (capture n st) (f st))"
  then obtain mid where m: "st' = capture n st mid" by auto
  show "caps_of st' n \<noteq> None"
    unfolding m by (cases mid) (simp add: capture_def caps_of_def)
qed

lemma makes_capture_other: assumes "makes n f" shows "makes n (\<lambda>st. map (capture k st) (f st))"
proof (rule makesI)
  fix st st' assume a: "st' \<in> set (map (capture k st) (f st))"
  then obtain mid where m: "mid \<in> set (f st)" "st' = capture k st mid" by auto
  have "caps_of mid n \<noteq> None" by (rule makesD[OF assms m(1)])
  then show "caps_of st' n \<noteq> None"
    unfolding m(2) by (cases mid) (simp add: capture_def caps_of_def)
qed

lemma makes_ahead: assumes "makes n f"
  shows "makes n (\<lambda>st. case f st of [] \<Rightarrow> [] | (p', s', m') # _ \<Rightarrow> [(fst st, rest_of st, m')])"
proof (rule makesI)
  fix st st'
  assume a: "st' \<in> set (case f st of [] \<Rightarrow> [] | (p', s', m') # _ \<Rightarrow> [(fst st, rest_of st, m')])"
  show "caps_of st' n \<noteq> None"
  proof (cases "f st")
    case Nil
    with a show ?thesis by simp
  next
    case (Cons x xs)
    obtain p' s' m' where x: "x = (p', s', m')" by (cases x) auto
    have "x \<in> set (f st)" using Cons by simp
    from makesD[OF assms this] have "m' n \<noteq> None" by (simp add: x caps_of_def)
    with a Cons x show ?thesis by (simp add: caps_of_def)
  qed
qed

lemma makes_ms: "binds n r \<Longrightarrow> makes n (ms r)"
proof (induction r)
  case (Seq a b)
  then show ?case by (auto simp: makes_bind1 makes_bind2 keeps_ms)
next
  case (Alt a b)
  then show ?case by (simp add: makes_append)
next
  case (Plus r)
  then show ?case by (simp add: makes_bind1 keeps_star_len keeps_ms)
next
  case (Rep k r)
  then obtain j where k: "k = Suc j" by (cases k) auto
  from Rep have "makes n (ms r)" by simp
  then show ?case unfolding k by (simp add: rep_Suc_fun makes_bind1 keeps_rep keeps_ms)
next
  case (Grp k r)
  then show ?case by (auto simp: makes_capture_same makes_capture_other)
next
  case (Ahead r)
  then show ?case by (simp add: makes_ahead)
qed simp_all

lemma search_groups:
  assumes "binds n r" "search r p i s = Some m"
  shows "groups m n \<noteq> None"
  using assms(2)
proof (induction s arbitrary: p i)
  case Nil
  show ?case
  proof (cases "ms r (p, [], Map.empty)")
    case Nil
    with Nil.prems show ?thesis by simp
  next
    case (Cons x xs)
    obtain p' s' m' where x: "x = (p', s', m')" by (cases x) auto
    have "x \<in> set (ms r (p, [], Map.empty))" using Cons by simp
    from makesD[OF makes_ms[OF assms(1)] this] have "m' n \<noteq> None" by (simp add: x caps_of_def)
    with Nil.prems Cons x show ?thesis by auto
  qed
next
  case (Cons c cs)
  show ?case
  proof (cases "ms r (p, c # cs, Map.empty)")
    case Nil
    with Cons.prems have "search r (Some c) (Suc i) cs = Some m" by simp
    then show ?thesis by (rule Cons.IH)
  next
    case (Cons x xs)
    obtain p' s' m' where x: "x = (p', s', m')" by (cases x) auto
    have "x \<in> set (ms r (p, c # cs, Map.empty))" using Cons by simp
    from makesD[OF makes_ms[OF assms(1)] this] have "m' n \<noteq> None" by (simp add: x caps_of_def)
    with Cons.prems Cons x show ?thesis by auto
  qed
qed

lemma re_match_group:
  "binds n r \<Longrightarrow> re_match r s = Some m \<Longrightarrow> \<exists>g. groups m n = Some g"
  unfolding re_match_def using search_groups by blast

section \<open>The parser does not throw\<close>

lemma bindE_Inr: "bindE (Inr v) f = f v"
  by (simp add: bindE_def)

lemma binds_patterns:
  "binds 1 (re_token key)" "binds 1 (re_line key)" "binds 1 (re_bool key)"
  "binds 1 re_steps" "binds 1 re_sqlPipe" "binds 1 re_options" "binds 1 re_dependsOn"
  "binds 1 re_depLine" "binds 1 re_optionLine" "binds 2 re_optionLine" "binds 1 (re_top key)"
  by (simp_all add: re_token_def re_line_def re_bool_def re_steps_def re_sqlPipe_def
      re_options_def re_dependsOn_def re_depLine_def re_optionLine_def re_top_def)

lemma strGroup_Inr:
  assumes "binds n r" "re_match r s = Some m"
  shows "strGroup m n = Inr (the (groups m n))"
  using re_match_group[OF assms] by (auto simp: strGroup_def)

lemma trimGroup_Inr:
  assumes "binds n r" "re_match r s = Some m"
  shows "trimGroup m n = Inr (trim (the (groups m n)))"
  using re_match_group[OF assms] by (auto simp: trimGroup_def)

lemma lineField_Inr:
  "lineField key block =
     Inr (case re_match (re_line key) block of None \<Rightarrow> None
          | Some m \<Rightarrow> Some (trim (the (groups m 1))))"
proof (cases "re_match (re_line key) block")
  case None
  then show ?thesis by (simp add: lineField_def)
next
  case (Some m)
  from trimGroup_Inr[OF binds_patterns(2) Some] Some show ?thesis
    by (simp add: lineField_def bindE_Inr)
qed

lemma sqlField_Inr: "\<exists>v. sqlField block = Inr v"
proof (cases "re_match re_sqlPipe block")
  case None
  then show ?thesis by (simp add: sqlField_def lineField_Inr)
next
  case (Some m)
  from strGroup_Inr[OF binds_patterns(5) Some] Some show ?thesis
    by (simp add: sqlField_def bindE_Inr)
qed

lemma optionLoop_Inr: "\<exists>v. optionLoop ls obj = Inr v"
proof (induction ls arbitrary: obj)
  case Nil
  show ?case by simp
next
  case (Cons l ls)
  show ?case
  proof (cases "re_match re_optionLine l")
    case None
    then show ?thesis using Cons.IH by simp
  next
    case (Some m)
    from trimGroup_Inr[OF binds_patterns(10) Some] Some show ?thesis
      using Cons.IH by (simp add: bindE_Inr)
  qed
qed

lemma optionsField_Inr: "\<exists>v. optionsField block = Inr v"
proof (cases "re_match re_options block")
  case None
  then show ?thesis by (simp add: optionsField_def)
next
  case (Some m)
  obtain v where v: "optionLoop (splitNl (trim (the (groups m 1)))) [] = Inr v"
    using optionLoop_Inr by blast
  from trimGroup_Inr[OF binds_patterns(6) Some] Some v show ?thesis
    by (simp add: optionsField_def bindE_Inr)
qed

lemma depLoop_Inr: "\<exists>v. depLoop ls deps = Inr v"
proof (induction ls arbitrary: deps)
  case Nil
  show ?case by simp
next
  case (Cons l ls)
  show ?case
  proof (cases "re_match re_depLine l")
    case None
    then show ?thesis using Cons.IH by simp
  next
    case (Some m)
    from trimGroup_Inr[OF binds_patterns(8) Some] Some show ?thesis
      using Cons.IH by (simp add: bindE_Inr)
  qed
qed

lemma dependsOnField_Inr: "\<exists>v. dependsOnField block = Inr v"
proof (cases "re_match re_dependsOn block")
  case None
  then show ?thesis by (simp add: dependsOnField_def)
next
  case (Some m)
  obtain v where v: "depLoop (splitNl (trim (the (groups m 1)))) [] = Inr v"
    using depLoop_Inr by blast
  from trimGroup_Inr[OF binds_patterns(7) Some] Some v show ?thesis
    by (simp add: dependsOnField_def bindE_Inr)
qed

text \<open>The step that \<open>parseStepBlock\<close> builds when \<open>id\<close> and \<open>kind\<close> are found.\<close>

lemma parseStepBlock_Some:
  assumes "re_match (re_token ''id'') block = Some idMatch"
    and "re_match (re_token ''kind'') block = Some kindMatch"
    and "sqlField block = Inr sqlV"
    and "optionsField block = Inr optionsV"
    and "dependsOnField block = Inr dependsOnV"
  shows "parseStepBlock block =
     Inr (Some ((newStep (the (groups idMatch 1)) (the (groups kindMatch 1)))
              \<lparr>shortDesc := (case re_match (re_line ''shortDesc'') block of None \<Rightarrow> None
                             | Some m \<Rightarrow> Some (trim (the (groups m 1)))),
               desc := (case re_match (re_line ''desc'') block of None \<Rightarrow> None
                        | Some m \<Rightarrow> Some (trim (the (groups m 1)))),
               format := tokenField ''format'' block,
               source := tokenField ''source'' block,
               path := (case re_match (re_line ''path'') block of None \<Rightarrow> None
                        | Some m \<Rightarrow> Some (trim (the (groups m 1)))),
               schema := (case re_match (re_line ''schema'') block of None \<Rightarrow> None
                          | Some m \<Rightarrow> Some (trim (the (groups m 1)))),
               cache := boolField ''cache'' block,
               show' := boolField ''show'' block,
               sql := sqlV, options := optionsV, dependsOn := dependsOnV\<rparr>))"
  unfolding parseStepBlock_def
  by (simp only: assms option.case strGroup_Inr[OF binds_patterns(1) assms(1)]
      strGroup_Inr[OF binds_patterns(1) assms(2)] lineField_Inr bindE_Inr)

lemma parseStepBlock_Inr: "\<exists>v. parseStepBlock block = Inr v"
proof (cases "re_match (re_token ''id'') block")
  case None
  then show ?thesis by (simp add: parseStepBlock_def)
next
  case (Some idMatch)
  note i = this
  show ?thesis
  proof (cases "re_match (re_token ''kind'') block")
    case None
    then show ?thesis using i by (simp add: parseStepBlock_def)
  next
    case (Some kindMatch)
    obtain a b c where "sqlField block = Inr a" "optionsField block = Inr b"
      "dependsOnField block = Inr c"
      using sqlField_Inr optionsField_Inr dependsOnField_Inr by blast
    from parseStepBlock_Some[OF i Some this] show ?thesis by blast
  qed
qed

lemma parseBlocks_Inr: "\<exists>v. parseBlocks bs = Inr v"
proof (induction bs)
  case Nil
  show ?case by simp
next
  case (Cons b bs)
  obtain v where "parseStepBlock b = Inr v" using parseStepBlock_Inr by blast
  with Cons show ?case by (auto simp: bindE_Inr)
qed


section \<open>Searching for a literal that the text does not hold\<close>

lemma lit_eq:
  "lit l (p, s, m) =
     (if prefix l s then [(if l = [] then p else Some (last l), drop (length l) s, m)] else [])"
proof (induction l arbitrary: p s)
  case Nil
  show ?case by simp
next
  case (Cons c l)
  show ?case
  proof (cases s)
    case Nil
    then show ?thesis by simp
  next
    case (Cons d t)
    then show ?thesis using Cons.IH[of "Some c" t] by (cases "l = []") auto
  qed
qed

lemma ms_Seq_Lit_not_prefix: "\<not> prefix l s \<Longrightarrow> ms (Seq (Lit l) r) (p, s, m) = []"
  by (simp add: lit_eq)

lemma search_Lit_absent:
  "\<not> includesStr s l \<Longrightarrow> search (Seq (Lit l) r) p i s = None"
proof (induction s arbitrary: p i)
  case Nil
  then have "\<not> prefix l []" by simp
  from ms_Seq_Lit_not_prefix[OF this, of r p Map.empty] show ?case
    by (simp del: ms.simps)
next
  case (Cons c cs)
  then have a: "\<not> prefix l (c # cs)" and b: "\<not> includesStr cs l" by auto
  from ms_Seq_Lit_not_prefix[OF a, of r p Map.empty] Cons.IH[OF b] show ?case
    by (simp del: ms.simps)
qed

lemma seqs_Cons2: "seqs (a # b # rs) = Seq a (seqs (b # rs))"
  by simp


lemma re_token_absent: "\<not> includesStr block (key @ '':'') \<Longrightarrow> re_match (re_token key) block = None"
  unfolding re_token_def re_match_def seqs_Cons2 by (rule search_Lit_absent)




section \<open>Multi-line SQL\<close>

lemma sqlExample_serialized: "stepsToYaml [sqlExampleStep] None None = sqlExampleYaml"
  by code_simp

lemma sqlExample_parsed:
  "parseYamlSteps sqlExampleYaml = Inr [(newStep ''query'' ''sql'')\<lparr>sql := Some ''SELECT *''\<rparr>]"
  by code_simp

text \<open>
  C2. The three-line \<open>sql\<close> of the example is serialised as a block scalar after a \<open>|\<close>
  marker, one indented line per SQL line. Parsing that text back does not give the
  three lines: the look-ahead \<open>(?=\n\s*[a-zA-Z]|$)\<close> of the block-scalar pattern ends
  the block before the first following line that starts with a letter, here \<open>FROM t\<close>,
  and the step comes back with the \<open>sql\<close> \<open>SELECT *\<close>.
\<close>

theorem C2_multiline_sql_is_truncated:
  "stepsToYaml [sqlExampleStep] None None = sqlExampleYaml
   \<and> parseYamlSteps (stepsToYaml [sqlExampleStep] None None)
       = Inr [(newStep ''query'' ''sql'')\<lparr>sql := Some ''SELECT *''\<rparr>]
   \<and> parseYamlSteps (stepsToYaml [sqlExampleStep] None None) \<noteq> Inr [sqlExampleStep]"
  unfolding sqlExample_serialized sqlExample_parsed
  by (simp add: sqlExampleStep_def newStep_def)

section \<open>The errors of validateYaml\<close>

lemma validateYaml_errors:
  assumes "parseYamlSteps yaml = Inr steps"
  shows "validateYaml yaml =
     Inr \<lparr>valid = ((if re_match re_hasId yaml = None then [missingIdMsg] else [])
                    @ (if \<not> includesStr yaml ''steps:'' then [missingStepsMsg] else [])
                    @ (if length steps = 0 then [noStepsMsg] else [])
                    @ stepLoop steps {} steps = []),
          errors = (if re_match re_hasId yaml = None then [missingIdMsg] else [])
                   @ (if \<not> includesStr yaml ''steps:'' then [missingStepsMsg] else [])
                   @ (if length steps = 0 then [noStepsMsg] else [])
                   @ stepLoop steps {} steps\<rparr>"
  unfolding validateYaml_def assms bindE_Inr Let_def by simp

lemma duplicateMsg_inj: "duplicateMsg a = duplicateMsg b \<longleftrightarrow> a = b"
  by (simp add: duplicateMsg_def quoted_def)

lemma not_duplicateMsg:
  "missingIdMsg \<noteq> duplicateMsg x" "missingStepsMsg \<noteq> duplicateMsg x" "noStepsMsg \<noteq> duplicateMsg x"
  "invalidKindMsg k i \<noteq> duplicateMsg x" "formatMsg i k \<noteq> duplicateMsg x"
  "unknownSourceMsg i src \<noteq> duplicateMsg x"
  by (simp_all add: duplicateMsg_def missingIdMsg_def missingStepsMsg_def noStepsMsg_def
      invalidKindMsg_def formatMsg_def unknownSourceMsg_def)

lemma checks_no_duplicateMsg:
  "filter (\<lambda>e. e = duplicateMsg x) (kindCheck step) = []"
  "filter (\<lambda>e. e = duplicateMsg x) (formatCheck step) = []"
  "filter (\<lambda>e. e = duplicateMsg x) (sourceCheck steps ids step) = []"
  by (simp_all add: kindCheck_def formatCheck_def sourceCheck_def not_duplicateMsg
      split: option.splits)

lemma duplicateCheck_count:
  "length (filter (\<lambda>e. e = duplicateMsg x) (duplicateCheck ids step)) =
     (if id' step = x \<and> x \<in> ids then 1 else 0)"
  by (auto simp: duplicateCheck_def duplicateMsg_inj)

lemma stepLoop_duplicates:
  "length (filter (\<lambda>e. e = duplicateMsg x) (stepLoop steps ids todo)) =
     (if x \<in> ids then count_list (map id' todo) x else count_list (map id' todo) x - 1)"
proof (induction todo arbitrary: ids)
  case Nil
  show ?case by simp
next
  case (Cons s todo)
  show ?case
    by (simp add: checks_no_duplicateMsg duplicateCheck_count Cons.IH)
qed

lemma validateYaml_duplicates:
  assumes "parseYamlSteps yaml = Inr steps" "validateYaml yaml = Inr v"
  shows "length (filter (\<lambda>e. e = duplicateMsg x) (errors v)) = count_list (map id' steps) x - 1"
proof -
  from assms(2) validateYaml_errors[OF assms(1)]
  have "errors v = (if re_match re_hasId yaml = None then [missingIdMsg] else [])
                   @ (if \<not> includesStr yaml ''steps:'' then [missingStepsMsg] else [])
                   @ (if length steps = 0 then [noStepsMsg] else [])
                   @ stepLoop steps {} steps" by auto
  then show ?thesis by (simp add: stepLoop_duplicates not_duplicateMsg)
qed

lemma validateYaml_errors_set:
  assumes "parseYamlSteps yaml = Inr steps" "validateYaml yaml = Inr v"
  shows "errors v = (if re_match re_hasId yaml = None then [missingIdMsg] else [])
                   @ (if \<not> includesStr yaml ''steps:'' then [missingStepsMsg] else [])
                   @ (if length steps = 0 then [noStepsMsg] else [])
                   @ stepLoop steps {} steps"
  using assms(2) validateYaml_errors[OF assms(1)] by auto

lemma formatMsg_not_unknownSourceMsg: "formatMsg i k \<noteq> unknownSourceMsg j src"
proof
  assume "formatMsg i k = unknownSourceMsg j src"
  then have "last (formatMsg i k) = last (unknownSourceMsg j src)" by simp
  then show False by (simp add: formatMsg_def unknownSourceMsg_def quoted_def)
qed

lemma not_unknownSourceMsg:
  "missingIdMsg \<noteq> unknownSourceMsg i src" "missingStepsMsg \<noteq> unknownSourceMsg i src"
  "noStepsMsg \<noteq> unknownSourceMsg i src" "duplicateMsg x \<noteq> unknownSourceMsg i src"
  "invalidKindMsg k j \<noteq> unknownSourceMsg i src"
  by (simp_all add: duplicateMsg_def missingIdMsg_def missingStepsMsg_def noStepsMsg_def
      invalidKindMsg_def unknownSourceMsg_def)

lemma find_None_iff_ids: "find (\<lambda>s. id' s = src) steps = None \<longleftrightarrow> src \<notin> id' ` set steps"
  by (auto simp: find_None_iff)

lemma sourceCheck_eq:
  assumes "ids \<subseteq> id' ` set steps"
  shows "sourceCheck steps ids step =
     (case source step of
        None \<Rightarrow> []
      | Some src \<Rightarrow> if src \<noteq> [] \<and> src \<notin> id' ` set steps
                    then [unknownSourceMsg (id' step) src] else [])"
proof (cases "source step")
  case None
  then show ?thesis by (simp add: sourceCheck_def)
next
  case (Some src)
  show ?thesis
  proof (cases "src \<in> id' ` set steps")
    case True
    then have ex: "list_ex (\<lambda>s. id' s = src) steps" by (auto simp: list_ex_iff)
    show ?thesis using Some True ex by (simp add: sourceCheck_def)
  next
    case False
    then have nex: "\<not> list_ex (\<lambda>s. id' s = src) steps" by (auto simp: list_ex_iff)
    have nf: "find (\<lambda>s. id' s = src) steps = None" using False by (simp add: find_None_iff_ids)
    have "src \<notin> ids" using False assms by blast
    then show ?thesis using Some False nex nf by (simp add: sourceCheck_def)
  qed
qed

lemma in_checks_unknownSourceMsg:
  "unknownSourceMsg i src \<notin> set (duplicateCheck ids step)"
  "unknownSourceMsg i src \<notin> set (kindCheck step)"
  "unknownSourceMsg i src \<notin> set (formatCheck step)"
  using not_unknownSourceMsg(4)[of "id' step" i src] not_unknownSourceMsg(5)[of "kind step" "id' step" i src]
    formatMsg_not_unknownSourceMsg[of "id' step" "kind step" i src]
  by (auto simp: duplicateCheck_def kindCheck_def formatCheck_def)

lemma stepLoop_unknownSource:
  assumes "ids \<union> id' ` set todo \<subseteq> id' ` set steps"
  shows "unknownSourceMsg i src \<in> set (stepLoop steps ids todo) \<longleftrightarrow>
     (\<exists>s\<in>set todo. \<exists>src'. source s = Some src' \<and> src' \<noteq> [] \<and> src' \<notin> id' ` set steps
        \<and> unknownSourceMsg (id' s) src' = unknownSourceMsg i src)"
  using assms
proof (induction todo arbitrary: ids)
  case Nil
  show ?case by simp
next
  case (Cons s todo)
  have sub: "insert (id' s) ids \<subseteq> id' ` set steps" using Cons.prems by auto
  have sub': "insert (id' s) ids \<union> id' ` set todo \<subseteq> id' ` set steps" using Cons.prems by auto
  have here: "unknownSourceMsg i src \<in> set (sourceCheck steps (insert (id' s) ids) s) \<longleftrightarrow>
     (\<exists>src'. source s = Some src' \<and> src' \<noteq> [] \<and> src' \<notin> id' ` set steps
        \<and> unknownSourceMsg (id' s) src' = unknownSourceMsg i src)"
    unfolding sourceCheck_eq[OF sub] by (cases "source s") auto
  show ?case
    using here Cons.IH[OF sub'] by (simp add: in_checks_unknownSourceMsg)
qed

lemma validateYaml_unknownSource:
  assumes "parseYamlSteps yaml = Inr steps" "validateYaml yaml = Inr v"
  shows "unknownSourceMsg i src \<in> set (errors v) \<longleftrightarrow>
     (\<exists>s\<in>set steps. \<exists>src'. source s = Some src' \<and> src' \<noteq> [] \<and> src' \<notin> id' ` set steps
        \<and> unknownSourceMsg (id' s) src' = unknownSourceMsg i src)"
proof -
  have "unknownSourceMsg i src \<in> set (errors v) \<longleftrightarrow> unknownSourceMsg i src \<in> set (stepLoop steps {} steps)"
    unfolding validateYaml_errors_set[OF assms]
    using not_unknownSourceMsg(1-3)[of i src] by auto
  then show ?thesis using stepLoop_unknownSource[of "{}" steps steps i src] by simp
qed






section \<open>Validation: the claims\<close>

lemma duplicateYaml_parsed:
  "parseYamlSteps duplicateYaml = Inr [newStep ''duplicate'' ''input'', newStep ''duplicate'' ''output'']"
  by code_simp

lemma duplicateYaml_validated:
  "validateYaml duplicateYaml =
     Inr \<lparr>valid = False,
          errors = [formatMsg ''duplicate'' ''input'', duplicateMsg ''duplicate'',
                    formatMsg ''duplicate'' ''output'']\<rparr>"
  by code_simp

lemma forwardYaml_parsed:
  "parseYamlSteps forwardYaml = Inr [(newStep ''A'' ''sql'')\<lparr>source := Some ''B''\<rparr>, newStep ''B'' ''sql'']"
  by code_simp

lemma forwardYaml_validated: "validateYaml forwardYaml = Inr \<lparr>valid = True, errors = []\<rparr>"
  by code_simp






text \<open>
  C6. \<open>validateYaml\<close> emits one \<open>Duplicate step ID: '<id>'\<close> error for each repeated
  occurrence of a step id: the number of such errors for an id is the number of parsed
  steps with that id, less one for the first. For a parsed list of exactly two steps
  with the same id the errors array holds exactly one such entry.
\<close>

theorem C6_one_duplicate_error_per_repeat:
  assumes "parseYamlSteps yaml = Inr steps" and "validateYaml yaml = Inr v"
  shows "length (filter (\<lambda>e. e = duplicateMsg x) (errors v)) = count_list (map id' steps) x - 1
    \<and> (\<forall>a b. steps = [a, b] \<and> id' a = x \<and> id' b = x
          \<longrightarrow> length (filter (\<lambda>e. e = duplicateMsg x) (errors v)) = 1)"
  using validateYaml_duplicates[OF assms, of x] by auto

theorem C6_one_duplicate_error_per_repeat_witness:
  "parseYamlSteps duplicateYaml = Inr [newStep ''duplicate'' ''input'', newStep ''duplicate'' ''output'']
   \<and> validateYaml duplicateYaml =
       Inr \<lparr>valid = False,
            errors = [formatMsg ''duplicate'' ''input'', duplicateMsg ''duplicate'',
                      formatMsg ''duplicate'' ''output'']\<rparr>
   \<and> length (filter (\<lambda>e. e = duplicateMsg ''duplicate'')
        [formatMsg ''duplicate'' ''input'', duplicateMsg ''duplicate'',
         formatMsg ''duplicate'' ''output'']) = 1"
proof -
  from C6_one_duplicate_error_per_repeat[OF duplicateYaml_parsed duplicateYaml_validated,
      of "''duplicate''"]
  have "length (filter (\<lambda>e. e = duplicateMsg ''duplicate'')
        [formatMsg ''duplicate'' ''input'', duplicateMsg ''duplicate'',
         formatMsg ''duplicate'' ''output'']) = 1"
    by (simp add: newStep_def)
  then show ?thesis using duplicateYaml_parsed duplicateYaml_validated by simp
qed

section \<open>Parse tolerance\<close>


section \<open>The order of the serialised attributes\<close>

lemma map_filter_append: "List.map_filter f (xs @ ys) = List.map_filter f xs @ List.map_filter f ys"
  by (simp add: List.map_filter_def)

lemma map_filter_none: "(\<And>x. x \<in> set xs \<Longrightarrow> f x = None) \<Longrightarrow> List.map_filter f xs = []"
  by (simp add: List.map_filter_def filter_empty_conv)

lemma keys_optLine:
  assumes "label = ''    '' @ key @ '': ''" "key \<noteq> []" "hd key \<noteq> CHR '' ''" "CHR '':'' \<notin> set key"
  shows "List.map_filter lineKey (optLine label v) = (if truthy v then [key] else [])"
proof -
  obtain c cs where k: "key = c # cs" using assms(2) by (cases key) auto
  have c: "c \<noteq> CHR '' ''" using assms(3) k by simp
  have tw: "takeWhile (\<lambda>c. c \<noteq> CHR '':'') (key @ '': '' @ s) = key" for s
    using assms(4) by (simp add: takeWhile_append)
  have "lineKey (label @ s) = Some key" for s
    unfolding lineKey_def assms(1) using tw[of s] c k by simp
  then show ?thesis
    by (cases v) (simp_all add: optLine_def List.map_filter_simps)
qed

lemma keys_boolLine:
  assumes "label = ''    '' @ key @ '': ''" "key \<noteq> []" "hd key \<noteq> CHR '' ''" "CHR '':'' \<notin> set key"
  shows "List.map_filter lineKey (boolLine label v) = (if v \<noteq> None then [key] else [])"
proof -
  obtain c cs where k: "key = c # cs" using assms(2) by (cases key) auto
  have c: "c \<noteq> CHR '' ''" using assms(3) k by simp
  have tw: "takeWhile (\<lambda>c. c \<noteq> CHR '':'') (key @ '': '' @ s) = key" for s
    using assms(4) by (simp add: takeWhile_append)
  have "lineKey (label @ s) = Some key" for s
    unfolding lineKey_def assms(1) using tw[of s] c k by simp
  then show ?thesis
    by (cases v) (simp_all add: boolLine_def List.map_filter_simps)
qed

lemma keys_sqlLines: "List.map_filter lineKey (sqlLines v) = (if truthy v then [''sql''] else [])"
proof (cases v)
  case None
  then show ?thesis by (simp add: sqlLines_def List.map_filter_simps)
next
  case (Some s)
  have a: "lineKey ''    sql: |'' = Some ''sql''" by (simp add: lineKey_def)
  have b: "lineKey (''    sql: '' @ s) = Some ''sql''" by (simp add: lineKey_def)
  have c: "List.map_filter lineKey (map (\<lambda>sqlLine. ''      '' @ sqlLine) (splitNl s)) = []"
    by (rule map_filter_none) (auto simp: lineKey_def)
  show ?thesis using Some a b c
    by (simp add: sqlLines_def List.map_filter_simps del: append.simps)
qed

lemma keys_optionsLines:
  "List.map_filter lineKey (optionsLines v) =
     (case v of None \<Rightarrow> [] | Some kvs \<Rightarrow> if kvs \<noteq> [] then [''options''] else [])"
proof (cases v)
  case None
  then show ?thesis by (simp add: optionsLines_def List.map_filter_simps)
next
  case (Some kvs)
  have a: "lineKey ''    options:'' = Some ''options''" by (simp add: lineKey_def)
  have b: "List.map_filter lineKey (map (\<lambda>(key, value). ''      '' @ key @ '': '' @ value) kvs) = []"
    by (rule map_filter_none) (auto simp: lineKey_def)
  show ?thesis using Some a b
    by (simp add: optionsLines_def List.map_filter_simps del: append.simps)
qed

lemma keys_dependsOnLines:
  "List.map_filter lineKey (dependsOnLines v) =
     (case v of None \<Rightarrow> [] | Some deps \<Rightarrow> if deps \<noteq> [] then [''dependsOn''] else [])"
proof (cases v)
  case None
  then show ?thesis by (simp add: dependsOnLines_def List.map_filter_simps)
next
  case (Some deps)
  have a: "lineKey ''    dependsOn:'' = Some ''dependsOn''" by (simp add: lineKey_def)
  have b: "List.map_filter lineKey (map (\<lambda>dep. ''      - '' @ dep) deps) = []"
    by (rule map_filter_none) (auto simp: lineKey_def)
  show ?thesis using Some a b
    by (simp add: dependsOnLines_def List.map_filter_simps del: append.simps)
qed

lemma keys_stepLines:
  "List.map_filter lineKey (stepLines step) =
     [''id'', ''kind'']
     @ (if truthy (shortDesc step) then [''shortDesc''] else [])
     @ (if truthy (source step) then [''source''] else [])
     @ (if truthy (format step) then [''format''] else [])
     @ (if truthy (path step) then [''path''] else [])
     @ (if truthy (sql step) then [''sql''] else [])
     @ (if cache step \<noteq> None then [''cache''] else [])
     @ (if show' step \<noteq> None then [''show''] else [])
     @ (if truthy (schema step) then [''schema''] else [])
     @ (case options step of None \<Rightarrow> [] | Some kvs \<Rightarrow> if kvs \<noteq> [] then [''options''] else [])
     @ (case dependsOn step of None \<Rightarrow> [] | Some deps \<Rightarrow> if deps \<noteq> [] then [''dependsOn''] else [])"
proof -
  have i: "lineKey (''  - id: '' @ id' step) = Some ''id''" by (simp add: lineKey_def)
  have k: "lineKey (''    kind: '' @ kind step) = Some ''kind''" by (simp add: lineKey_def)
  have e: "lineKey [] = None" by (simp add: lineKey_def)
  have h: "List.map_filter lineKey [''  - id: '' @ id' step, ''    kind: '' @ kind step] = [''id'', ''kind'']"
    using i k by (simp add: List.map_filter_simps)
  have t: "List.map_filter lineKey [[]] = []" using e by (simp add: List.map_filter_simps)
  show ?thesis
    unfolding stepLines_def map_filter_append h t
      keys_optLine[of "''    shortDesc: ''" "''shortDesc''", simplified]
      keys_optLine[of "''    source: ''" "''source''", simplified]
      keys_optLine[of "''    format: ''" "''format''", simplified]
      keys_optLine[of "''    path: ''" "''path''", simplified]
      keys_optLine[of "''    schema: ''" "''schema''", simplified]
      keys_boolLine[of "''    cache: ''" "''cache''", simplified]
      keys_boolLine[of "''    show: ''" "''show''", simplified]
      keys_sqlLines keys_optionsLines keys_dependsOnLines
    by simp
qed

lemma emptyShortDesc_lines:
  "stepLines emptyShortDescStep = [''  - id: a'', ''    kind: sql'', []]"
  by (simp add: emptyShortDescStep_def newStep_def stepLines_def optLine_def boolLine_def
      sqlLines_def optionsLines_def dependsOnLines_def)

text \<open>
  C9, as stated, fails for an attribute that is defined and empty: the serialiser
  tests the truth of a string, not whether it is defined. The step
  \<open>emptyShortDescStep\<close> has a \<open>shortDesc\<close> (the empty string) and no \<open>shortDesc\<close> line.
\<close>

theorem C9_counterexample:
  "shortDesc emptyShortDescStep = Some []
   \<and> stepLines emptyShortDescStep = [''  - id: a'', ''    kind: sql'', []]
   \<and> List.map_filter lineKey (stepLines emptyShortDescStep) = [''id'', ''kind'']"
  unfolding emptyShortDesc_lines
  by (simp add: emptyShortDescStep_def newStep_def List.map_filter_simps lineKey_def)

text \<open>
  C9, amended. For every step the serialiser emits \<open>id\<close>, then \<open>kind\<close>, then the optional
  attributes in the fixed order shortDesc, source, format, path, sql, cache, show, schema,
  options, dependsOn, leaving out an attribute that is undefined or empty: a string
  attribute that is the empty string, an \<open>options\<close> object without keys, a \<open>dependsOn\<close>
  list without entries (\<open>cache\<close> and \<open>show\<close> are emitted whenever they are defined). The
  text is a function of the step list, the pipeline id and the description.
\<close>

theorem C9_fixed_attribute_order:
  "List.map_filter lineKey (stepLines step) =
     [''id'', ''kind'']
     @ (if truthy (shortDesc step) then [''shortDesc''] else [])
     @ (if truthy (source step) then [''source''] else [])
     @ (if truthy (format step) then [''format''] else [])
     @ (if truthy (path step) then [''path''] else [])
     @ (if truthy (sql step) then [''sql''] else [])
     @ (if cache step \<noteq> None then [''cache''] else [])
     @ (if show' step \<noteq> None then [''show''] else [])
     @ (if truthy (schema step) then [''schema''] else [])
     @ (case options step of None \<Rightarrow> [] | Some kvs \<Rightarrow> if kvs \<noteq> [] then [''options''] else [])
     @ (case dependsOn step of None \<Rightarrow> [] | Some deps \<Rightarrow> if deps \<noteq> [] then [''dependsOn''] else [])
   \<and> take 2 (stepLines step) = [''  - id: '' @ id' step, ''    kind: '' @ kind step]
   \<and> stepsToYaml steps pipelineId pipelineDesc
       = trim (joinNl (headerLines pipelineId pipelineDesc @ concat (map stepLines steps)))"
  using keys_stepLines[of step] by (simp add: stepLines_def stepsToYaml_def)

theorem C9_fixed_attribute_order_witness:
  "List.map_filter lineKey (stepLines fullStep) =
     [''id'', ''kind'', ''shortDesc'', ''source'', ''format'', ''path'', ''sql'', ''cache'',
      ''show'', ''schema'', ''options'', ''dependsOn'']
   \<and> List.map_filter lineKey (stepLines (newStep ''a'' ''sql'')) = [''id'', ''kind'']"
  using C9_fixed_attribute_order[of fullStep "[]" None None]
    C9_fixed_attribute_order[of "newStep ''a'' ''sql''" "[]" None None]
  by (simp add: fullStep_def newStep_def)

section \<open>The head of the serialised text and the entries of the steps\<close>






lemma joinNl_Cons: "joinNl (l # ls) = l @ (if ls = [] then [] else nl # joinNl ls)"
  by (cases ls) simp_all











section \<open>Merge\<close>


lemma mergeExample_metadata:
  "extractPipelineMetadata mergeExistingYaml =
     \<lparr>meta_id = Some ''original-id'', meta_desc = Some ''Original description''\<rparr>"
  by code_simp




section \<open>The captures of the leftmost match\<close>

lemma ms_Seq_Lit:
  "ms (Seq (Lit L) R) (p, s, m) =
     (if prefix L s then ms R (if L = [] then p else Some (last L), drop (length L) s, m) else [])"
  by (simp add: lit_eq)

lemma search_groups_indep:
  assumes "L \<noteq> []"
  shows "map_option groups (search (Seq (Lit L) R) p i s) = map_option groups (search (Seq (Lit L) R) p' i' s)"
proof (induction s arbitrary: p i p' i')
  case Nil
  have "\<not> prefix L []" using assms by simp
  then show ?case by (simp add: ms_Seq_Lit del: ms.simps)
next
  case (Cons c cs)
  show ?case
  proof (cases "prefix L (c # cs)")
    case False
    then show ?thesis using Cons.IH[of "Some c" "Suc i" "Some c" "Suc i'"]
      by (simp add: ms_Seq_Lit del: ms.simps)
  next
    case True
    then have e: "ms (Seq (Lit L) R) (p, c # cs, Map.empty) = ms (Seq (Lit L) R) (p', c # cs, Map.empty)"
      using assms by (simp add: ms_Seq_Lit del: ms.simps)
    show ?thesis
    proof (cases "ms (Seq (Lit L) R) (p', c # cs, Map.empty)")
      case Nil
      then show ?thesis using e Cons.IH[of "Some c" "Suc i" "Some c" "Suc i'"]
        by (simp del: ms.simps)
    next
      case (Cons x xs)
      then show ?thesis using e by (cases x) (simp del: ms.simps)
    qed
  qed
qed

lemma found_Nil: "L \<noteq> [] \<Longrightarrow> found (Seq (Lit L) R) [] = None"
  unfolding found_def re_match_def by (simp add: ms_Seq_Lit del: ms.simps)

lemma found_miss:
  assumes "L \<noteq> []" "ms (Seq (Lit L) R) (None, c # t, Map.empty) = []"
  shows "found (Seq (Lit L) R) (c # t) = found (Seq (Lit L) R) t"
  unfolding found_def re_match_def
  using assms(2) search_groups_indep[OF assms(1), of R "Some c" "Suc 0" t None 0]
  by (simp del: ms.simps)

lemma found_hit:
  assumes "ms r (None, s, Map.empty) = (p', s', m) # xs"
  shows "found r s = Some m"
  unfolding found_def re_match_def using assms by (cases s) (simp_all del: ms.simps)

lemma found_hit_Lit:
  assumes "L \<noteq> []" "ms R (Some (last L), t, Map.empty) = (p', s', m) # xs"
  shows "found (Seq (Lit L) R) (L @ t) = Some m"
proof -
  have "ms (Seq (Lit L) R) (None, L @ t, Map.empty) = (p', s', m) # xs"
    using assms by (simp add: ms_Seq_Lit del: ms.simps)
  then show ?thesis by (rule found_hit)
qed






lemma case_found:
  "(case re_match r s of None \<Rightarrow> None | Some m \<Rightarrow> F (groups m))
     = (case found r s of None \<Rightarrow> None | Some g \<Rightarrow> F g)"
  by (cases "re_match r s") (simp_all add: found_def)




text \<open>Up to the first occurrence of the literal there is no match.\<close>

lemma prefix_long: "length L \<le> length X \<Longrightarrow> prefix L (X @ Y) \<longleftrightarrow> prefix L X"
  by (metis append_eq_append_conv_if append_take_drop_id prefixE prefixI prefix_length_le take_is_prefix prefix_order.dual_order.trans prefix_prefix)

lemma found_first:
  assumes "L \<noteq> []" "\<not> includesStr (pre @ butlast L) L"
  shows "found (Seq (Lit L) R) (pre @ L @ rest) = found (Seq (Lit L) R) (L @ rest)"
  using assms(2)
proof (induction pre)
  case Nil
  show ?case by simp
next
  case (Cons a pre)
  then have np: "\<not> prefix L (a # pre @ butlast L)" and ni: "\<not> includesStr (pre @ butlast L) L" by auto
  have len: "length L \<le> length (a # pre @ butlast L)" by simp
  have e: "a # pre @ L @ rest = (a # pre @ butlast L) @ (last L # rest)" using assms(1) by simp
  have "\<not> prefix L (a # pre @ L @ rest)" unfolding e prefix_long[OF len] using np .
  then have "ms (Seq (Lit L) R) (None, a # pre @ L @ rest, Map.empty) = []"
    by (simp add: ms_Seq_Lit del: ms.simps)
  from found_miss[OF assms(1) this] Cons.IH[OF ni] show ?case by simp
qed

section \<open>Matching an attribute line\<close>

lemma step1_Cons: "step1 P (p, c # cs, m) = (if P c then [(Some c, cs, m)] else [])"
  by simp







lemma ms_notSpaceNl: "ms notSpaceNl = step1 (\<lambda>c. \<not> is_space c)"
proof -
  have "\<not> is_space c \<and> c \<noteq> nl \<longleftrightarrow> \<not> is_space c" for c by (auto simp: is_space_def)
  then show ?thesis by (intro ext) simp
qed






lemma re_token_Seq: "re_token key = Seq (Lit (key @ '':'')) (Seq (Star ws) (Grp 1 (Plus notSpaceNl)))"
  by (simp add: re_token_def)





section \<open>The first way of a matcher\<close>

lemma headsI: "f st = y # xs \<Longrightarrow> heads f st y"
  by (auto simp: heads_def)






lemma heads_Opt:
  assumes "heads (ms r) st y" "progress st y"
  shows "heads (ms (Opt r)) st y"
proof -
  from assms(1) obtain xs where "ms r st = y # xs" by (auto simp: heads_def)
  then show ?thesis using assms(2) by (simp add: heads_def)
qed

lemma ms_Opt_miss: "ms r st = [] \<Longrightarrow> ms (Opt r) st = [st]"
  by simp

lemma star_stop: "f st = [] \<Longrightarrow> star f n st = [st]"
  by (cases n) simp_all

lemma heads_star_step:
  assumes "heads f st y" "progress st y" "heads (star f n) y z"
  shows "heads (star f (Suc n)) st z"
proof -
  from assms(1) obtain xs where xs: "f st = y # xs" by (auto simp: heads_def)
  from assms(3) obtain zs where zs: "star f n y = z # zs" by (auto simp: heads_def)
  show ?thesis using assms(2) by (simp add: heads_def xs zs)
qed

lemma heads_Plus:
  assumes "heads (ms r) st y" "heads (star (ms r) (length (rest_of y))) y z"
  shows "heads (ms (Plus r)) st z"
proof -
  from assms(1) obtain xs where xs: "ms r st = y # xs" by (auto simp: heads_def)
  from assms(2) obtain zs where zs: "star (ms r) (length (rest_of y)) y = z # zs" by (auto simp: heads_def)
  show ?thesis by (simp add: heads_def xs zs)
qed

lemma heads_Grp:
  assumes "heads (ms r) (p, s, m) (p', s', m')"
  shows "heads (ms (Grp n r)) (p, s, m) (p', s', m'(n \<mapsto> take (length s - length s') s))"
proof -
  from assms obtain xs where "ms r (p, s, m) = (p', s', m') # xs" by (auto simp: heads_def)
  then show ?thesis by (simp add: heads_def capture_def rest_of_def)
qed

lemma found_heads:
  assumes "heads (ms r) (None, s, Map.empty) (p', s', m)"
  shows "found r s = Some m"
proof -
  from assms obtain xs where "ms r (None, s, Map.empty) = (p', s', m) # xs" by (auto simp: heads_def)
  then show ?thesis by (rule found_hit)
qed

lemma found_heads_Lit:
  assumes "L \<noteq> []" "heads (ms R) (Some (last L), t, Map.empty) (p', s', m)"
  shows "found (Seq (Lit L) R) (L @ t) = Some m"
proof -
  from assms(2) obtain xs where "ms R (Some (last L), t, Map.empty) = (p', s', m) # xs"
    by (auto simp: heads_def)
  from found_hit_Lit[OF assms(1) this] show ?thesis .
qed

lemma readsD1: "reads f l \<Longrightarrow> heads f (p, l, m) (Some (last l), [], m)"
  by (simp add: reads_def)

lemma readsD2: "reads f l \<Longrightarrow> heads f (p, l @ nl # T, m) (Some nl, T, m)"
  by (simp add: reads_def)

lemma reads_ne: "reads f l \<Longrightarrow> l \<noteq> []"
  by (simp add: reads_def)

text \<open>The iteration over the lines, to the end of the input or to a text that is no line.\<close>

lemma star_lines_end:
  assumes "\<forall>l\<in>set ls. reads f l" "ls \<noteq> []" "\<And>p m. f (p, [], m) = []" "length (joinNl ls) \<le> n"
  shows "heads (star f n) (p, joinNl ls, m) (Some (last (joinNl ls)), [], m)"
  using assms(1,2,4)
proof (induction ls arbitrary: p n)
  case Nil
  then show ?case by simp
next
  case (Cons l ls)
  then have l: "reads f l" by simp
  note ne = reads_ne[OF l]
  show ?case
  proof (cases "ls = []")
    case True
    then have len: "length l \<le> n" using Cons.prems by simp
    then obtain k where n: "n = Suc k" using ne by (cases n) auto
    have a: "heads f (p, l, m) (Some (last l), [], m)" by (rule readsD1[OF l])
    have b: "progress (p, l, m) (Some (last l), [], m)" using ne by (simp add: progress_def rest_of_def)
    have c: "heads (star f k) (Some (last l), [], m) (Some (last l), [], m)"
      using assms(3) by (simp add: heads_def star_stop)
    from heads_star_step[OF a b c] show ?thesis using True n by (simp del: star.simps)
  next
    case False
    then have j: "joinNl (l # ls) = l @ nl # joinNl ls" by (simp add: joinNl_Cons)
    have len: "length (l @ nl # joinNl ls) \<le> n" using Cons.prems j by simp
    then obtain k where n: "n = Suc k" by (cases n) auto
    have lk: "length (joinNl ls) \<le> k" using len n by simp
    have r: "\<forall>l\<in>set ls. reads f l" using Cons.prems by simp
    have a: "heads f (p, l @ nl # joinNl ls, m) (Some nl, joinNl ls, m)" by (rule readsD2[OF l])
    have b: "progress (p, l @ nl # joinNl ls, m) (Some nl, joinNl ls, m)"
      by (simp add: progress_def rest_of_def)
    have c: "heads (star f k) (Some nl, joinNl ls, m) (Some (last (joinNl ls)), [], m)"
      by (rule Cons.IH[OF r False lk])
    have jn: "joinNl ls \<noteq> []"
    proof -
      obtain l' ls' where "ls = l' # ls'" using False by (cases ls) auto
      then show ?thesis using r reads_ne[of f l'] by (simp add: joinNl_Cons)
    qed
    from heads_star_step[OF a b c] show ?thesis unfolding j n using jn by (simp del: star.simps)
  qed
qed

lemma star_lines_stop:
  assumes "\<forall>l\<in>set ls. reads f l" "f (Some nl, S, m) = []" "length (joinNl ls @ nl # S) \<le> n" "ls \<noteq> []"
  shows "heads (star f n) (p, joinNl ls @ nl # S, m) (Some nl, S, m)"
  using assms(1,3,4)
proof (induction ls arbitrary: p n)
  case Nil
  then show ?case by simp
next
  case (Cons l ls)
  then have l: "reads f l" by simp
  show ?case
  proof (cases "ls = []")
    case True
    then have len: "length (l @ nl # S) \<le> n" using Cons.prems by simp
    then obtain k where n: "n = Suc k" by (cases n) auto
    have a: "heads f (p, l @ nl # S, m) (Some nl, S, m)" by (rule readsD2[OF l])
    have b: "progress (p, l @ nl # S, m) (Some nl, S, m)" by (simp add: progress_def rest_of_def)
    have c: "heads (star f k) (Some nl, S, m) (Some nl, S, m)"
      using assms(2) by (simp add: heads_def star_stop)
    from heads_star_step[OF a b c] show ?thesis using True n by (simp del: star.simps)
  next
    case False
    then have j: "joinNl (l # ls) @ nl # S = l @ nl # (joinNl ls @ nl # S)" by (simp add: joinNl_Cons)
    have len: "length (l @ nl # (joinNl ls @ nl # S)) \<le> n" using Cons.prems j by simp
    then obtain k where n: "n = Suc k" by (cases n) auto
    have lk: "length (joinNl ls @ nl # S) \<le> k" using len n by simp
    have r: "\<forall>l\<in>set ls. reads f l" using Cons.prems by simp
    have a: "heads f (p, l @ nl # (joinNl ls @ nl # S), m) (Some nl, joinNl ls @ nl # S, m)"
      by (rule readsD2[OF l])
    have b: "progress (p, l @ nl # (joinNl ls @ nl # S), m) (Some nl, joinNl ls @ nl # S, m)"
      by (simp add: progress_def rest_of_def)
    have c: "heads (star f k) (Some nl, joinNl ls @ nl # S, m) (Some nl, S, m)"
      by (rule Cons.IH[OF r lk False])
    from heads_star_step[OF a b c] show ?thesis unfolding j n by (simp del: star.simps)
  qed
qed

text \<open>The group \<open>((?: line )+)\<close> over the lines: what it captures.\<close>

lemma plus_lines_end:
  assumes "\<forall>l\<in>set ls. reads (ms r) l" "ls \<noteq> []" "\<And>p m. ms r (p, [], m) = []"
  shows "heads (ms (Grp g (Plus r))) (p, joinNl ls, m) (Some (last (joinNl ls)), [], m(g \<mapsto> joinNl ls))"
proof -
  obtain l ls' where ls: "ls = l # ls'" using assms(2) by (cases ls) auto
  have l: "reads (ms r) l" and r: "\<forall>l\<in>set ls'. reads (ms r) l" using assms(1) ls by simp_all
  have "heads (ms (Plus r)) (p, joinNl ls, m) (Some (last (joinNl ls)), [], m)"
  proof (cases "ls' = []")
    case True
    have a: "heads (ms r) (p, l, m) (Some (last l), [], m)" by (rule readsD1[OF l])
    have b: "heads (star (ms r) (length (rest_of (Some (last l), [], m)))) (Some (last l), [], m) (Some (last l), [], m)"
      using assms(3) by (simp add: heads_def star_stop)
    from heads_Plus[OF a b] show ?thesis using True ls by (simp del: ms.simps)
  next
    case False
    have j: "joinNl ls = l @ nl # joinNl ls'" using False ls by (simp add: joinNl_Cons)
    have a: "heads (ms r) (p, l @ nl # joinNl ls', m) (Some nl, joinNl ls', m)" by (rule readsD2[OF l])
    have b: "heads (star (ms r) (length (rest_of (Some nl, joinNl ls', m)))) (Some nl, joinNl ls', m)
        (Some (last (joinNl ls')), [], m)"
      by (rule star_lines_end[OF r False assms(3)]) (simp add: rest_of_def)
    have jn: "joinNl ls' \<noteq> []"
    proof -
      obtain l' ls'' where "ls' = l' # ls''" using False by (cases ls') auto
      then show ?thesis using r reads_ne[of "ms r" l'] by (simp add: joinNl_Cons)
    qed
    from heads_Plus[OF a b] show ?thesis unfolding j using jn by (simp del: ms.simps)
  qed
  from heads_Grp[OF this, of g] show ?thesis by (simp del: ms.simps)
qed

lemma plus_lines_stop:
  assumes "\<forall>l\<in>set ls. reads (ms r) l" "ls \<noteq> []" "ms r (Some nl, S, m) = []"
  shows "heads (ms (Grp g (Plus r))) (p, joinNl ls @ nl # S, m) (Some nl, S, m(g \<mapsto> joinNl ls @ [nl]))"
proof -
  obtain l ls' where ls: "ls = l # ls'" using assms(2) by (cases ls) auto
  have l: "reads (ms r) l" and r: "\<forall>l\<in>set ls'. reads (ms r) l" using assms(1) ls by simp_all
  have "heads (ms (Plus r)) (p, joinNl ls @ nl # S, m) (Some nl, S, m)"
  proof (cases "ls' = []")
    case True
    have a: "heads (ms r) (p, l @ nl # S, m) (Some nl, S, m)" by (rule readsD2[OF l])
    have b: "heads (star (ms r) (length (rest_of (Some nl, S, m)))) (Some nl, S, m) (Some nl, S, m)"
      using assms(3) by (simp add: heads_def star_stop)
    from heads_Plus[OF a b] show ?thesis using True ls by (simp del: ms.simps)
  next
    case False
    have j: "joinNl ls @ nl # S = l @ nl # (joinNl ls' @ nl # S)" using False ls by (simp add: joinNl_Cons)
    have a: "heads (ms r) (p, l @ nl # (joinNl ls' @ nl # S), m) (Some nl, joinNl ls' @ nl # S, m)"
      by (rule readsD2[OF l])
    have b: "heads (star (ms r) (length (rest_of (Some nl, joinNl ls' @ nl # S, m)))) (Some nl, joinNl ls' @ nl # S, m)
        (Some nl, S, m)"
      by (rule star_lines_stop[OF r assms(3) _ False]) (simp add: rest_of_def)
    from heads_Plus[OF a b] show ?thesis unfolding j by (simp del: ms.simps)
  qed
  from heads_Grp[OF this, of g] show ?thesis by (simp del: ms.simps)
qed

section \<open>Patterns read on the text\<close>


text \<open>What a run of a character class goes over.\<close>

lemma star_step1_drop:
  "y \<in> set (star (step1 P) n st) \<Longrightarrow>
     \<exists>v. rest_of st = v @ rest_of y \<and> (\<forall>c\<in>set v. P c) \<and> snd (snd y) = snd (snd st)"
proof (induction n arbitrary: st)
  case 0
  then show ?case by simp
next
  case (Suc n)
  from Suc.prems have "y = st \<or> (\<exists>x\<in>set (step1 P st). y \<in> set (star (step1 P) n x))" by auto
  then show ?case
  proof
    assume "y = st"
    then show ?thesis by simp
  next
    assume "\<exists>x\<in>set (step1 P st). y \<in> set (star (step1 P) n x)"
    then obtain x where x: "x \<in> set (step1 P st)" "y \<in> set (star (step1 P) n x)" by blast
    obtain p s m where st: "st = (p, s, m)" by (cases st)
    from x(1) obtain c cs where s: "s = c # cs" "P c" "x = (Some c, cs, m)"
      unfolding st by (cases s) (auto split: if_splits)
    from Suc.IH[OF x(2)] obtain v where v: "rest_of x = v @ rest_of y" "\<forall>c\<in>set v. P c" "snd (snd y) = snd (snd x)"
      by blast
    have "rest_of st = (c # v) @ rest_of y" using v(1) s st by (simp add: rest_of_def)
    moreover have "\<forall>d\<in>set (c # v). P d" using v(2) s(2) by simp
    moreover have "snd (snd y) = snd (snd st)" using v(3) s(3) st by simp
    ultimately show ?thesis by blast
  qed
qed


lemma Plus_drop:
  assumes "ms r = step1 P" "y \<in> set (ms (Plus r) st)"
  shows "\<exists>v. v \<noteq> [] \<and> rest_of st = v @ rest_of y \<and> (\<forall>c\<in>set v. P c) \<and> snd (snd y) = snd (snd st)"
proof -
  from assms(2) obtain x where x: "x \<in> set (step1 P st)" "y \<in> set (star (step1 P) (length (rest_of x)) x)"
    by (auto simp: assms(1))
  obtain p s m where st: "st = (p, s, m)" by (cases st)
  from x(1) obtain c cs where s: "s = c # cs" "P c" "x = (Some c, cs, m)"
    unfolding st by (cases s) (auto split: if_splits)
  from star_step1_drop[OF x(2)] obtain v where v: "rest_of x = v @ rest_of y" "\<forall>c\<in>set v. P c" "snd (snd y) = snd (snd x)"
    by blast
  have "rest_of st = (c # v) @ rest_of y" using v(1) s st by (simp add: rest_of_def)
  moreover have "\<forall>d\<in>set (c # v). P d" using v(2) s(2) by simp
  moreover have "snd (snd y) = snd (snd st)" using v(3) s(3) st by simp
  ultimately show ?thesis by blast
qed



lemma Grp_Nil_iff: "ms (Grp n r) st = [] \<longleftrightarrow> ms r st = []"
  by simp









section \<open>The text under the steps header\<close>

lemma ms_letter: "ms letter = step1 isLetter"
  by (simp add: isLetter_def[abs_def])

















section \<open>The tokens of the parsed steps and the messages of the validator\<close>

text \<open>A match is one of the ways of the matcher at some position of the text.\<close>

lemma search_SomeD:
  "search r p i s = Some m \<Longrightarrow> \<exists>q u y. y \<in> set (ms r (q, u, Map.empty)) \<and> groups m = snd (snd y)"
proof (induction s arbitrary: p i)
  case Nil
  show ?case
  proof (cases "ms r (p, [], Map.empty)")
    case Nil
    with Nil.prems show ?thesis by (simp del: ms.simps)
  next
    case (Cons x xs)
    obtain p' s' m' where x: "x = (p', s', m')" by (cases x)
    have "x \<in> set (ms r (p, [], Map.empty))" using Cons by simp
    moreover have "groups m = m'" using Nil.prems Cons x by (auto simp del: ms.simps)
    ultimately show ?thesis using x by fastforce
  qed
next
  case (Cons c cs)
  show ?case
  proof (cases "ms r (p, c # cs, Map.empty)")
    case Nil
    with Cons.prems have "search r (Some c) (Suc i) cs = Some m" by (simp del: ms.simps)
    from Cons.IH[OF this] show ?thesis .
  next
    case (Cons x xs)
    obtain p' s' m' where x: "x = (p', s', m')" by (cases x)
    have "x \<in> set (ms r (p, c # cs, Map.empty))" using Cons by simp
    moreover have "groups m = m'" using Cons.prems Cons x by (auto simp del: ms.simps)
    ultimately show ?thesis using x by fastforce
  qed
qed

lemma token_capture:
  assumes "y \<in> set (ms (re_token key) (p, u, Map.empty))"
  shows "\<exists>g. snd (snd y) 1 = Some g \<and> tokenish g"
proof -
  let ?L = "key @ '':''"
  let ?st = "(Some (last ?L), drop (length ?L) u, Map.empty :: nat \<rightharpoonup> string)"
  have e: "ms (re_token key) (p, u, Map.empty)
      = (if prefix ?L u then ms (Seq (Star ws) (Grp 1 (Plus notSpaceNl))) ?st else [])"
    unfolding re_token_Seq by (simp add: ms_Seq_Lit del: ms.simps)
  from assms have "y \<in> set (ms (Seq (Star ws) (Grp 1 (Plus notSpaceNl))) ?st)"
    unfolding e by (cases "prefix ?L u") (simp_all del: ms.simps)
  then obtain b where b: "b \<in> set (ms (Star ws) ?st)" "y \<in> set (ms (Grp 1 (Plus notSpaceNl)) b)"
    by (auto simp del: ms.simps simp add: ms.simps(5))
  from b(2) obtain z where z: "z \<in> set (ms (Plus notSpaceNl) b)" "y = capture 1 b z"
    by (auto simp del: ms.simps simp add: ms.simps(12))
  from Plus_drop[OF ms_notSpaceNl z(1)] obtain v where v: "v \<noteq> []" "rest_of b = v @ rest_of z"
    "\<forall>c\<in>set v. \<not> is_space c" by blast
  obtain q s n where zz: "z = (q, s, n)" by (cases z)
  have "snd (snd y) 1 = Some v" unfolding z(2) zz capture_def using v(2) zz by (simp add: rest_of_def)
  then show ?thesis using v(1,3) by (simp add: tokenish_def list_all_iff)
qed

lemma re_token_tokenish:
  assumes "re_match (re_token key) b = Some m"
  shows "\<exists>g. groups m 1 = Some g \<and> tokenish g"
proof -
  from search_SomeD[OF assms[unfolded re_match_def]]
  obtain q u y where y: "y \<in> set (ms (re_token key) (q, u, Map.empty))" "groups m = snd (snd y)" by blast
  from token_capture[OF y(1)] y(2) show ?thesis by simp
qed

lemma tokenField_tokenish: "tokenField key b = Some v \<Longrightarrow> tokenish v"
  using re_token_tokenish[of key b] by (auto simp: tokenField_def split: option.splits)

lemma parseStepBlock_tokens:
  assumes "parseStepBlock b = Inr (Some st)"
  shows "tokenish (id' st) \<and> tokenish (kind st) \<and> (\<forall>v. source st = Some v \<longrightarrow> tokenish v)"
proof -
  from assms obtain idMatch kindMatch where m: "re_match (re_token ''id'') b = Some idMatch"
    "re_match (re_token ''kind'') b = Some kindMatch"
    by (auto simp: parseStepBlock_def split: option.splits)
  obtain sqlV optionsV dependsOnV where f: "sqlField b = Inr sqlV" "optionsField b = Inr optionsV"
    "dependsOnField b = Inr dependsOnV"
    using sqlField_Inr optionsField_Inr dependsOnField_Inr by blast
  note ps = parseStepBlock_Some[OF m f]
  from re_token_tokenish[OF m(1)] obtain i where i: "groups idMatch 1 = Some i" "tokenish i" by blast
  from re_token_tokenish[OF m(2)] obtain k where k: "groups kindMatch 1 = Some k" "tokenish k" by blast
  from assms[unfolded ps] have st: "id' st = i" "kind st = k" "source st = tokenField ''source'' b"
    using i(1) k(1) by (auto simp: newStep_def)
  show ?thesis using st i(2) k(2) tokenField_tokenish by auto
qed

lemma parseBlocks_tokens:
  "parseBlocks bs = Inr steps \<Longrightarrow> s \<in> set steps \<Longrightarrow>
     tokenish (id' s) \<and> tokenish (kind s) \<and> (\<forall>v. source s = Some v \<longrightarrow> tokenish v)"
proof (induction bs arbitrary: steps)
  case Nil
  then show ?case by simp
next
  case (Cons b bs)
  obtain r where r: "parseStepBlock b = Inr r" using parseStepBlock_Inr by blast
  obtain rest where rest: "parseBlocks bs = Inr rest" using parseBlocks_Inr by blast
  from Cons.prems(1) have steps: "steps = (case r of None \<Rightarrow> rest | Some x \<Rightarrow> x # rest)"
    by (simp add: r rest bindE_Inr)
  show ?case
  proof (cases r)
    case None
    then show ?thesis using Cons.IH[OF rest] Cons.prems(2) steps by simp
  next
    case (Some x)
    then have "s = x \<or> s \<in> set rest" using Cons.prems(2) steps by simp
    then show ?thesis
    proof
      assume "s = x"
      then show ?thesis using parseStepBlock_tokens[of b x] r Some by simp
    next
      assume "s \<in> set rest"
      then show ?thesis using Cons.IH[OF rest] by simp
    qed
  qed
qed

lemma parseYamlSteps_tokens:
  assumes "parseYamlSteps yaml = Inr steps" "s \<in> set steps"
  shows "tokenish (id' s) \<and> tokenish (kind s) \<and> (\<forall>v. source s = Some v \<longrightarrow> tokenish v)"
proof (cases "re_match re_steps yaml")
  case None
  then show ?thesis using assms by (simp add: parseYamlSteps_def)
next
  case (Some m)
  from strGroup_Inr[OF binds_patterns(4) Some] assms(1) Some
  have "parseBlocks (filter (\<lambda>b. b \<noteq> []) (re_split re_stepSep (the (groups m 1)))) = Inr steps"
    by (simp add: parseYamlSteps_def bindE_Inr)
  from parseBlocks_tokens[OF this assms(2)] show ?thesis .
qed

text \<open>The unknown-source message tells the step and the source, for an id without a space.\<close>

lemma split_at_space:
  assumes "CHR '' '' \<notin> set a" "CHR '' '' \<notin> set b" "a @ CHR '' '' # x = b @ CHR '' '' # y"
  shows "a = b \<and> x = y"
  using assms
proof (induction a arbitrary: b)
  case Nil
  then show ?case by (cases b) auto
next
  case (Cons c a)
  then show ?case by (cases b) auto
qed

lemma unknownSourceMsg_inj:
  assumes "CHR '' '' \<notin> set i" "CHR '' '' \<notin> set j" "unknownSourceMsg i a = unknownSourceMsg j b"
  shows "i = j \<and> a = b"
proof -
  from assms(3) have "(i @ [CHR 0x27]) @ CHR '' '' # (''references unknown source '' @ quoted a)
      = (j @ [CHR 0x27]) @ CHR '' '' # (''references unknown source '' @ quoted b)"
    by (simp add: unknownSourceMsg_def quoted_def)
  from split_at_space[OF _ _ this] assms(1,2) show ?thesis by (simp add: quoted_def)
qed

lemma tokenish_no_space: "tokenish v \<Longrightarrow> CHR '' '' \<notin> set v"
  by (auto simp: tokenish_def list_all_iff is_space_def)

lemma tokenish_ne: "tokenish v \<Longrightarrow> v \<noteq> []"
  by (simp add: tokenish_def)

lemma validateYaml_unknown_step:
  assumes "parseYamlSteps yaml = Inr steps" "validateYaml yaml = Inr v" "s \<in> set steps" "source s = Some src"
  shows "unknownSourceMsg (id' s) src \<in> set (errors v) \<longleftrightarrow> src \<notin> id' ` set steps"
proof
  assume "unknownSourceMsg (id' s) src \<in> set (errors v)"
  with validateYaml_unknownSource[OF assms(1,2), of "id' s" src]
  obtain t src' where t: "t \<in> set steps" "source t = Some src'" "src' \<notin> id' ` set steps"
    "unknownSourceMsg (id' t) src' = unknownSourceMsg (id' s) src" by blast
  have "CHR '' '' \<notin> set (id' t)" "CHR '' '' \<notin> set (id' s)"
    using parseYamlSteps_tokens[OF assms(1) t(1)] parseYamlSteps_tokens[OF assms(1,3)] tokenish_no_space by blast+
  from unknownSourceMsg_inj[OF this t(4)] t(3) show "src \<notin> id' ` set steps" by simp
next
  assume a: "src \<notin> id' ` set steps"
  have "src \<noteq> []" using parseYamlSteps_tokens[OF assms(1,3)] assms(4) tokenish_ne by blast
  with a assms(3,4) validateYaml_unknownSource[OF assms(1,2), of "id' s" src]
  show "unknownSourceMsg (id' s) src \<in> set (errors v)" by blast
qed

lemma validateYaml_unknown_error:
  assumes "parseYamlSteps yaml = Inr steps" "validateYaml yaml = Inr v"
    "unknownSourceMsg i src \<in> set (errors v)" "CHR '' '' \<notin> set i"
  shows "\<exists>s\<in>set steps. id' s = i \<and> source s = Some src \<and> src \<notin> id' ` set steps"
proof -
  from validateYaml_unknownSource[OF assms(1,2), of i src] assms(3)
  obtain t src' where t: "t \<in> set steps" "source t = Some src'" "src' \<notin> id' ` set steps"
    "unknownSourceMsg (id' t) src' = unknownSourceMsg i src" by blast
  have "CHR '' '' \<notin> set (id' t)"
    using parseYamlSteps_tokens[OF assms(1) t(1)] tokenish_no_space by blast
  from unknownSourceMsg_inj[OF this assms(4) t(4)] t(1,2,3) show ?thesis by auto
qed




section \<open>The steps header and the tokens of a chunk, read on the text\<close>













section \<open>Validation and parse tolerance: the claims on the text\<close>

lemma danglingYaml_parsed:
  "parseYamlSteps danglingYaml =
     Inr [(newStep ''A'' ''sql'')\<lparr>source := Some ''C''\<rparr>, (newStep ''C'' ''sql'')\<lparr>source := Some ''X''\<rparr>]"
  by code_simp

lemma danglingYaml_validated:
  "validateYaml danglingYaml = Inr \<lparr>valid = False, errors = [unknownSourceMsg ''C'' ''X'']\<rparr>"
  by code_simp




text \<open>
  C7. For every document and every parsed step with a \<open>source\<close>, the errors array holds
  the unknown-source error of that step, which names the \<open>id\<close> of the step and the
  \<open>source\<close>, if and only if the \<open>source\<close> is the \<open>id\<close> of no step of the full parsed list;
  so a step whose \<open>source\<close> is the \<open>id\<close> of a later step raises no such error. Every
  unknown-source error in the array is the error of such a step: the message tells the
  \<open>id\<close> and the \<open>source\<close> apart, since the \<open>id\<close> of a parsed step holds no space.
\<close>

theorem C7_unknown_source_iff_absent_from_full_list:
  assumes "parseYamlSteps yaml = Inr steps" and "validateYaml yaml = Inr v"
  shows "(\<forall>s\<in>set steps. \<forall>src. source s = Some src \<longrightarrow>
            (unknownSourceMsg (id' s) src \<in> set (errors v) \<longleftrightarrow> src \<notin> id' ` set steps))
    \<and> (\<forall>i src. unknownSourceMsg i src \<in> set (errors v) \<and> CHR '' '' \<notin> set i \<longrightarrow>
            (\<exists>s\<in>set steps. id' s = i \<and> source s = Some src \<and> src \<notin> id' ` set steps))
    \<and> (\<forall>i j a b. CHR '' '' \<notin> set i \<and> CHR '' '' \<notin> set j \<and> unknownSourceMsg i a = unknownSourceMsg j b
            \<longrightarrow> i = j \<and> a = b)
    \<and> (\<forall>s\<in>set steps. CHR '' '' \<notin> set (id' s))"
proof -
  have a: "\<forall>s\<in>set steps. \<forall>src. source s = Some src \<longrightarrow>
            (unknownSourceMsg (id' s) src \<in> set (errors v) \<longleftrightarrow> src \<notin> id' ` set steps)"
    using validateYaml_unknown_step[OF assms] by blast
  have b: "\<forall>i src. unknownSourceMsg i src \<in> set (errors v) \<and> CHR '' '' \<notin> set i \<longrightarrow>
            (\<exists>s\<in>set steps. id' s = i \<and> source s = Some src \<and> src \<notin> id' ` set steps)"
    using validateYaml_unknown_error[OF assms] by blast
  have c: "\<forall>i j a b. CHR '' '' \<notin> set i \<and> CHR '' '' \<notin> set j \<and> unknownSourceMsg i a = unknownSourceMsg j b
            \<longrightarrow> i = j \<and> a = b"
    using unknownSourceMsg_inj by blast
  have d: "\<forall>s\<in>set steps. CHR '' '' \<notin> set (id' s)"
    using parseYamlSteps_tokens[OF assms(1)] tokenish_no_space by blast
  from a b c d show ?thesis by blast
qed

theorem C7_unknown_source_iff_absent_from_full_list_witness:
  "parseYamlSteps danglingYaml =
     Inr [(newStep ''A'' ''sql'')\<lparr>source := Some ''C''\<rparr>, (newStep ''C'' ''sql'')\<lparr>source := Some ''X''\<rparr>]
   \<and> validateYaml danglingYaml = Inr \<lparr>valid = False, errors = [unknownSourceMsg ''C'' ''X'']\<rparr>
   \<and> unknownSourceMsg ''C'' ''X'' \<in> set (errors \<lparr>valid = False, errors = [unknownSourceMsg ''C'' ''X'']\<rparr>)
   \<and> unknownSourceMsg ''A'' ''C'' \<notin> set (errors \<lparr>valid = False, errors = [unknownSourceMsg ''C'' ''X'']\<rparr>)"
proof -
  let ?A = "(newStep ''A'' ''sql'')\<lparr>source := Some ''C''\<rparr>"
  let ?C = "(newStep ''C'' ''sql'')\<lparr>source := Some ''X''\<rparr>"
  let ?v = "\<lparr>valid = False, errors = [unknownSourceMsg ''C'' ''X'']\<rparr>"
  note t = C7_unknown_source_iff_absent_from_full_list[OF danglingYaml_parsed danglingYaml_validated]
  from t have s: "\<forall>s\<in>set [?A, ?C]. \<forall>src. source s = Some src \<longrightarrow>
            (unknownSourceMsg (id' s) src \<in> set (errors ?v) \<longleftrightarrow> src \<notin> id' ` set [?A, ?C])"
    by blast
  have x: "unknownSourceMsg ''C'' ''X'' \<in> set (errors ?v)"
    using s by (simp add: newStep_def)
  have y: "unknownSourceMsg ''A'' ''C'' \<notin> set (errors ?v)"
  proof -
    from s have "unknownSourceMsg (id' ?A) ''C'' \<in> set (errors ?v) \<longleftrightarrow> ''C'' \<notin> id' ` set [?A, ?C]"
      by (simp add: newStep_def)
    then show ?thesis by (simp add: newStep_def)
  qed
  from x y danglingYaml_parsed danglingYaml_validated show ?thesis by blast
qed




section \<open>The metadata, read on the text\<close>














section \<open>Merge: the claim on the text\<close>



section \<open>The lines of a list of entries\<close>

lemma entryLines_Nil: "entryLines [] = []"
  by (simp add: entryLines_def)





lemma joinNl_tail: "\<exists>t. joinNl (l # ls) = l @ t \<and> (t = [] \<or> hd t = nl) \<and> t = (if ls = [] then [] else nl # joinNl ls)"
  by (simp add: joinNl_Cons)







section \<open>Plain steps and their entries\<close>



















section \<open>Reading one attribute of a step entry\<close>












section \<open>Reading a step entry\<close>












section \<open>Splitting the text into the step entries\<close>

lemma re_stepSep_Seq:
  "re_stepSep = Seq (Lit [nl]) (Seq (Star ws) (Seq (Lit ''-'') (Seq (Plus ws) (Ahead (Lit ''id:'')))))"
  by (simp add: re_stepSep_def)


lemma sepAt_Nil: "sepAt [] = []"
  unfolding sepAt_def re_stepSep_Seq by (simp add: ms_Seq_Lit del: ms.simps)

















lemma noKey_nl_free_bool: "nl \<notin> set (boolStr b)"
  by (simp add: boolStr_def)







section \<open>Serialise, then parse\<close>



























section \<open>Round trip: the claims\<close>














end
